theory Spec2Isabelle
  imports Complex_Main "HOL-Library.Word"
begin

unbundle bit_operations_syntax

section \<open>Parameter value types (ParameterTraits.h)\<close>

text \<open>
  A C++ \<open>float\<close> is modelled by the IEEE 754 datum it denotes: a finite number (\<open>Finite 0\<close>
  is \<open>+0.0f\<close>), the negative zero, one of the two infinities, or a NaN. Comparisons of
  IEEE values are exact, so the relational operators below are the operators of the source.
  Every binary32 value is a value of this type (the finite ones are dyadic rationals), so a
  statement about all \<open>float32\<close> covers all C++ floats.
\<close>

datatype float32 = Finite rat | NegZero | PInf | NInf | NaN

text \<open>The number a finite datum stands for.\<close>

fun number :: "float32 \<Rightarrow> rat" where
  "number (Finite r) = r"
| "number _ = 0"

fun is_finite :: "float32 \<Rightarrow> bool" where
  "is_finite (Finite r) = True"
| "is_finite NegZero = True"
| "is_finite _ = False"

text \<open>\<open>a <= b\<close> on floats: false as soon as one operand is a NaN; the two zeros are equal.\<close>

fun float_le :: "float32 \<Rightarrow> float32 \<Rightarrow> bool" where
  "float_le NaN _ = False"
| "float_le _ NaN = False"
| "float_le NInf _ = True"
| "float_le _ PInf = True"
| "float_le PInf _ = False"
| "float_le _ NInf = False"
| "float_le a b = (number a \<le> number b)"

text \<open>\<open>a >= b\<close> on floats.\<close>

definition float_ge :: "float32 \<Rightarrow> float32 \<Rightarrow> bool" where
  "float_ge a b = float_le b a"

datatype ParameterID = ID_TemperatureSetpoint | ID_HighTemperatureAlarm | ID_FanDutyCycle

record TemperatureSetpoint =
  "value" :: float32

record HighTemperatureAlarm =
  threshold :: float32

record FanDutyCycle =
  percent :: float32

subsection \<open>Names, defaults and validators of the three trait specialisations\<close>

definition name_TemperatureSetpoint :: string where
  "name_TemperatureSetpoint = ''TemperatureSetpoint''"

definition name_HighTemperatureAlarm :: string where
  "name_HighTemperatureAlarm = ''HighTemperatureAlarm''"

definition name_FanDutyCycle :: string where
  "name_FanDutyCycle = ''FanDutyCycle''"

definition default_v_TemperatureSetpoint :: TemperatureSetpoint where
  "default_v_TemperatureSetpoint = \<lparr>value = Finite (75 / 2)\<rparr>"

definition default_v_HighTemperatureAlarm :: HighTemperatureAlarm where
  "default_v_HighTemperatureAlarm = \<lparr>threshold = Finite 80\<rparr>"

definition default_v_FanDutyCycle :: FanDutyCycle where
  "default_v_FanDutyCycle = \<lparr>percent = Finite 50\<rparr>"

definition validate_TemperatureSetpoint :: "TemperatureSetpoint \<Rightarrow> bool" where
  "validate_TemperatureSetpoint x =
     (float_ge (value x) (Finite 0) \<and> float_le (value x) (Finite 100))"

definition validate_HighTemperatureAlarm :: "HighTemperatureAlarm \<Rightarrow> bool" where
  "validate_HighTemperatureAlarm x =
     (float_ge (threshold x) (Finite 0) \<and> float_le (threshold x) (Finite 150))"

definition validate_FanDutyCycle :: "FanDutyCycle \<Rightarrow> bool" where
  "validate_FanDutyCycle x =
     (float_ge (percent x) (Finite 0) \<and> float_le (percent x) (Finite 100))"

text \<open>The closed interval \<open>[lo, hi]\<close> of numbers, as a set of float data: the finite data
  (either zero included) whose number lies between the bounds.\<close>

definition closed_range :: "rat \<Rightarrow> rat \<Rightarrow> float32 set" where
  "closed_range lo hi = {v. is_finite v \<and> lo \<le> number v \<and> number v \<le> hi}"

section \<open>Model of the C and C++ library routines the traits call\<close>

text \<open>
  Modelled from the spec: the routines \<open>std::from_chars\<close>, \<open>std::strtof\<close> and
  \<open>std::snprintf\<close>, which the traits call and which are not among the repository's sources.
  The spec calls parsing the conversion of "a textual numeric representation" and
  serialising a "fixed two-decimal-place fixed-point rendering"; the definitions of this
  section give these words the meaning the C and C++ standards give the three routines, for
  the \<open>"C"\<close> locale and the default rounding mode (to nearest, ties to even).
\<close>

subsection \<open>Rounding a number to binary32\<close>

definition round_half_even :: "rat \<Rightarrow> int" where
  "round_half_even x =
     (let f = \<lfloor>x\<rfloor>; d = x - of_int f
      in if d < 1 / 2 then f
         else if 1 / 2 < d then f + 1
         else if even f then f else f + 1)"

text \<open>The exponent \<open>e\<close> of the binade \<open>[2^e, 2^(e+1))\<close> a magnitude falls in, not below the
  least normal exponent \<open>-126\<close> (subnormal numbers share its spacing) and not above \<open>127\<close>.\<close>

fun first_binade :: "rat \<Rightarrow> int list \<Rightarrow> int" where
  "first_binade x [] = 127"
| "first_binade x (e # es) = (if x < 2 powi (e + 1) then e else first_binade x es)"

definition binade :: "rat \<Rightarrow> int" where
  "binade x = first_binade x [-126 .. 126]"

text \<open>The binary32 datum nearest to the magnitude \<open>x\<close> with the given sign: a multiple of the
  spacing \<open>2^(e - 23)\<close> of its binade, an infinity from \<open>2^128\<close> on.\<close>

definition round_binary32 :: "bool \<Rightarrow> rat \<Rightarrow> float32" where
  "round_binary32 neg x =
     (let q = 2 powi (binade x - 23);
          y = of_int (round_half_even (x / q)) * q
      in if 2 powi 128 \<le> y then (if neg then NInf else PInf)
         else if y = 0 then (if neg then NegZero else Finite 0)
         else Finite (if neg then - y else y))"

subsection \<open>Scanning numbers in text\<close>

definition is_digit :: "char \<Rightarrow> bool" where
  "is_digit c = (48 \<le> (of_char c :: nat) \<and> (of_char c :: nat) \<le> 57)"

definition digit_val :: "char \<Rightarrow> nat" where
  "digit_val c = of_char c - 48"

definition nat_of_digits :: "string \<Rightarrow> nat" where
  "nat_of_digits ds = foldl (\<lambda>a c. 10 * a + digit_val c) 0 ds"

definition to_lower :: "char \<Rightarrow> char" where
  "to_lower c = (if 65 \<le> (of_char c :: nat) \<and> (of_char c :: nat) \<le> 90
                 then char_of (of_char c + 32 :: nat) else c)"

definition is_xdigit :: "char \<Rightarrow> bool" where
  "is_xdigit c = (is_digit c
      \<or> (97 \<le> (of_char (to_lower c) :: nat) \<and> (of_char (to_lower c) :: nat) \<le> 102))"

definition xdigit_val :: "char \<Rightarrow> nat" where
  "xdigit_val c = (if is_digit c then digit_val c else of_char (to_lower c) - 87)"

definition nat_of_xdigits :: "string \<Rightarrow> nat" where
  "nat_of_xdigits ds = foldl (\<lambda>a c. 16 * a + xdigit_val c) 0 ds"

text \<open>A significand: digits, optionally with one radix point, and at least one digit. The
  result is the digits before the point, the digits after it, and the number of characters.\<close>

definition scan_significand :: "(char \<Rightarrow> bool) \<Rightarrow> string \<Rightarrow> (string \<times> string \<times> nat) option" where
  "scan_significand dig s =
     (let ip = takeWhile dig s;
          r = dropWhile dig s
      in case r of
           c # r' \<Rightarrow>
             if c = CHR ''.'' then
               (let fp = takeWhile dig r'
                in if ip = [] \<and> fp = [] then None
                   else Some (ip, fp, length ip + 1 + length fp))
             else if ip = [] then None else Some (ip, [], length ip)
         | [] \<Rightarrow> if ip = [] then None else Some (ip, [], length ip))"

text \<open>An exponent part: the marker, an optional sign and at least one decimal digit; without
  a digit there is no exponent part. The result is the exponent and the number of
  characters (zero when there is no exponent part).\<close>

definition scan_exponent :: "char \<Rightarrow> string \<Rightarrow> int \<times> nat" where
  "scan_exponent marker s =
     (case s of
        [] \<Rightarrow> (0, 0)
      | c # r \<Rightarrow>
          if to_lower c \<noteq> marker then (0, 0)
          else
            (let (neg, r1, k) =
                   (case r of
                      [] \<Rightarrow> (False, r, 1)
                    | d # r' \<Rightarrow>
                        if d = CHR ''-'' then (True, r', 2)
                        else if d = CHR ''+'' then (False, r', 2)
                        else (False, r, 1));
                 ds = takeWhile is_digit r1
             in if ds = [] then (0, 0)
                else (if neg then - int (nat_of_digits ds) else int (nat_of_digits ds),
                      k + length ds)))"

text \<open>A decimal floating constant: the number it denotes and its length.\<close>

definition scan_decimal :: "string \<Rightarrow> (rat \<times> nat) option" where
  "scan_decimal s =
     (case scan_significand is_digit s of
        None \<Rightarrow> None
      | Some (ip, fp, n) \<Rightarrow>
          (let (e, k) = scan_exponent (CHR ''e'') (drop n s)
           in Some (of_nat (nat_of_digits (ip @ fp)) / 10 ^ length fp * 10 powi e, n + k)))"

text \<open>A hexadecimal floating constant: \<open>0x\<close>, hexadecimal digits with an optional point, an
  optional binary exponent.\<close>

definition scan_hex :: "string \<Rightarrow> (rat \<times> nat) option" where
  "scan_hex s =
     (if map to_lower (take 2 s) \<noteq> ''0x'' then None
      else case scan_significand is_xdigit (drop 2 s) of
        None \<Rightarrow> None
      | Some (ip, fp, n) \<Rightarrow>
          (let (e, k) = scan_exponent (CHR ''p'') (drop (2 + n) s)
           in Some (of_nat (nat_of_xdigits (ip @ fp)) / 16 ^ length fp * 2 powi e, 2 + n + k)))"

text \<open>\<open>inf\<close>, \<open>infinity\<close>, \<open>nan\<close> and \<open>nan(...)\<close>, in any letter case: whether it is a NaN,
  and the length.\<close>

definition is_nchar :: "char \<Rightarrow> bool" where
  "is_nchar c = (is_digit c \<or> c = CHR ''_''
      \<or> (97 \<le> (of_char (to_lower c) :: nat) \<and> (of_char (to_lower c) :: nat) \<le> 122))"

definition scan_special :: "string \<Rightarrow> (bool \<times> nat) option" where
  "scan_special s =
     (let l = map to_lower s
      in if take 8 l = ''infinity'' then Some (False, 8)
         else if take 3 l = ''inf'' then Some (False, 3)
         else if take 3 l = ''nan'' then
           (let r = drop 3 s; body = takeWhile is_nchar (drop 1 r)
            in if take 1 r = ''('' \<and> take 1 (drop (1 + length body) r) = '')''
               then Some (True, 3 + length body + 2) else Some (True, 3))
         else None)"

subsection \<open>\<open>std::from_chars\<close> with \<open>chars_format::general\<close>\<close>

datatype errc = errc_ok | invalid_argument | result_out_of_range

record from_chars_result =
  ptr :: nat
  ec :: errc

text \<open>
  The arguments are the characters of \<open>[first, last)\<close> and the content of \<open>value\<close> before
  the call; the result is the returned structure, \<open>ptr\<close> as an offset from \<open>first\<close>, and the
  content of \<open>value\<close> after the call. A minus sign is the only sign accepted, no white space is
  skipped and there is no hexadecimal form. The number is rounded to the nearest binary32
  value; when that is infinite, or zero for a number that is not zero, the call reports
  \<open>result_out_of_range\<close> and leaves \<open>value\<close> alone, as it does when nothing matches.
\<close>

definition from_chars :: "string \<Rightarrow> float32 \<Rightarrow> from_chars_result \<times> float32" where
  "from_chars s val =
     (let neg = (take 1 s = ''-'');
          off = (if neg then 1 else 0);
          body = drop off s
      in case scan_special body of
           Some (isnan, n) \<Rightarrow>
             (\<lparr>ptr = off + n, ec = errc_ok\<rparr>, if isnan then NaN else if neg then NInf else PInf)
         | None \<Rightarrow>
             (case scan_decimal body of
                None \<Rightarrow> (\<lparr>ptr = 0, ec = invalid_argument\<rparr>, val)
              | Some (x, n) \<Rightarrow>
                  (let r = round_binary32 neg x
                   in if \<not> is_finite r \<or> (x \<noteq> 0 \<and> number r = 0)
                      then (\<lparr>ptr = off + n, ec = result_out_of_range\<rparr>, val)
                      else (\<lparr>ptr = off + n, ec = errc_ok\<rparr>, r))))"

subsection \<open>\<open>std::strtof\<close>\<close>

definition is_space :: "char \<Rightarrow> bool" where
  "is_space c = (c = CHR '' '' \<or> (9 \<le> (of_char c :: nat) \<and> (of_char c :: nat) \<le> 13))"

text \<open>
  The result is the returned number and \<open>end\<close> as an offset from the start of the text;
  offset zero with the number zero when no conversion is performed. White space is skipped, a
  sign of either kind is accepted, and the hexadecimal form is tried before the decimal one.
  A number too large in magnitude gives an infinity, one too small its rounded value.
\<close>

definition strtof :: "string \<Rightarrow> float32 \<times> nat" where
  "strtof s =
     (let ws = length (takeWhile is_space s);
          s1 = drop ws s;
          neg = (take 1 s1 = ''-'');
          off = ws + (if neg \<or> take 1 s1 = ''+'' then 1 else 0);
          body = drop off s
      in case scan_special body of
           Some (isnan, n) \<Rightarrow> (if isnan then NaN else if neg then NInf else PInf, off + n)
         | None \<Rightarrow>
             (case scan_hex body of
                Some (x, n) \<Rightarrow> (round_binary32 neg x, off + n)
              | None \<Rightarrow>
                  (case scan_decimal body of
                     Some (x, n) \<Rightarrow> (round_binary32 neg x, off + n)
                   | None \<Rightarrow> (Finite 0, 0))))"

subsection \<open>\<open>std::snprintf\<close> with the format \<open>%.2f\<close>\<close>

definition digit_char :: "nat \<Rightarrow> char" where
  "digit_char d = char_of (48 + d)"

fun digits_of :: "nat \<Rightarrow> string" where
  "digits_of n =
     (if n < 10 then [digit_char n] else digits_of (n div 10) @ [digit_char (n mod 10)])"

text \<open>The complete text \<open>%.2f\<close> produces for a float (promoted to \<open>double\<close>, which is exact):
  the number rounded to two decimals, ties to even.\<close>

definition format_2f :: "float32 \<Rightarrow> string" where
  "format_2f v =
     (case v of
        NaN \<Rightarrow> ''nan''
      | PInf \<Rightarrow> ''inf''
      | NInf \<Rightarrow> ''-inf''
      | NegZero \<Rightarrow> ''-0.00''
      | Finite r \<Rightarrow>
          (let k = nat (round_half_even (\<bar>r\<bar> * 100))
           in (if r < 0 then ''-'' else []) @ digits_of (k div 100) @ ''.''
              @ [digit_char (k mod 100 div 10), digit_char (k mod 10)]))"

text \<open>\<open>snprintf(out, n, "%.2f", value)\<close>: the return value is the length of the complete
  text; the buffer receives at most \<open>n - 1\<close> of its characters (and the terminator), and
  nothing when \<open>n\<close> is zero.\<close>

definition snprintf_2f :: "string \<Rightarrow> nat \<Rightarrow> float32 \<Rightarrow> int \<times> string" where
  "snprintf_2f out n v =
     (int (length (format_2f v)), if n = 0 then out else take (n - 1) (format_2f v))"

section \<open>Parsing and serialising (ParameterTraits.h)\<close>

text \<open>The characters of a C string: those before the first terminator.\<close>

definition c_str :: "string \<Rightarrow> string" where
  "c_str bytes = takeWhile (\<lambda>c. c \<noteq> CHR 0x00) bytes"

text \<open>
  \<open>detail::parse_float\<close>. The argument \<open>inp\<close> is \<open>None\<close> for a null pointer; \<open>out\<close> is the
  content of the reference before the call, the result holds the returned boolean and its
  content after the call. The flag \<open>to_chars\<close> says whether the feature-test macro
  \<open>__cpp_lib_to_chars\<close> selects the \<open>from_chars\<close> block.
\<close>

definition strtof_fallback :: "string \<Rightarrow> float32 \<Rightarrow> bool \<times> float32" where
  "strtof_fallback s out =
     (let (v, end) = strtof s
      in if end = 0 then (False, out) else (True, v))"

definition parse_float :: "bool \<Rightarrow> string option \<Rightarrow> float32 \<Rightarrow> bool \<times> float32" where
  "parse_float to_chars inp out =
     (case inp of
        None \<Rightarrow> (False, out)
      | Some bytes \<Rightarrow>
          (let s = c_str bytes
           in if to_chars then
                (let (r, out1) = from_chars s out
                 in if ec r = errc_ok \<and> ptr r \<noteq> 0 then (True, out1)
                    else strtof_fallback s out1)
              else strtof_fallback s out))"

text \<open>\<open>detail::safe_snp\<close> at the format \<open>%.2f\<close>: the returned \<open>int\<close> and the text in the
  buffer after the call.\<close>

definition safe_snp :: "float32 \<Rightarrow> string \<Rightarrow> nat \<Rightarrow> int \<times> string" where
  "safe_snp v out n =
     (if n = 0 then (0, out)
      else
        (let (written, out') = snprintf_2f out n v
         in (if 0 \<le> written \<and> nat written < n then written else 0, out')))"

text \<open>The members \<open>parse\<close> and \<open>serialize\<close> of the three specialisations. \<open>parse\<close> returns
  its boolean and the content of \<open>out\<close> after the call.\<close>

definition parse_TemperatureSetpoint ::
    "bool \<Rightarrow> string option \<Rightarrow> TemperatureSetpoint \<Rightarrow> bool \<times> TemperatureSetpoint" where
  "parse_TemperatureSetpoint to_chars inp out =
     (let (ok, v) = parse_float to_chars inp (Finite 0)
      in if \<not> ok then (False, out)
         else (let out' = out\<lparr>value := v\<rparr> in (validate_TemperatureSetpoint out', out')))"

definition parse_HighTemperatureAlarm ::
    "bool \<Rightarrow> string option \<Rightarrow> HighTemperatureAlarm \<Rightarrow> bool \<times> HighTemperatureAlarm" where
  "parse_HighTemperatureAlarm to_chars inp out =
     (let (ok, v) = parse_float to_chars inp (Finite 0)
      in if \<not> ok then (False, out)
         else (let out' = out\<lparr>threshold := v\<rparr> in (validate_HighTemperatureAlarm out', out')))"

definition parse_FanDutyCycle ::
    "bool \<Rightarrow> string option \<Rightarrow> FanDutyCycle \<Rightarrow> bool \<times> FanDutyCycle" where
  "parse_FanDutyCycle to_chars inp out =
     (let (ok, v) = parse_float to_chars inp (Finite 0)
      in if \<not> ok then (False, out)
         else (let out' = out\<lparr>percent := v\<rparr> in (validate_FanDutyCycle out', out')))"

definition serialize_TemperatureSetpoint :: "TemperatureSetpoint \<Rightarrow> string \<Rightarrow> nat \<Rightarrow> int \<times> string" where
  "serialize_TemperatureSetpoint x out n = safe_snp (value x) out n"

definition serialize_HighTemperatureAlarm :: "HighTemperatureAlarm \<Rightarrow> string \<Rightarrow> nat \<Rightarrow> int \<times> string" where
  "serialize_HighTemperatureAlarm x out n = safe_snp (threshold x) out n"

definition serialize_FanDutyCycle :: "FanDutyCycle \<Rightarrow> string \<Rightarrow> nat \<Rightarrow> int \<times> string" where
  "serialize_FanDutyCycle x out n = safe_snp (percent x) out n"

section \<open>The single-producer single-consumer ring buffer (main.cpp)\<close>

text \<open>
  \<open>std::size_t\<close> is a 64-bit unsigned word. The capacity is the template parameter
  \<open>CapacityPow2\<close>; the class is accepted by its \<open>static_assert\<close> when
  \<open>capacity_ok\<close> holds. The atomics are read and written in program order: the model is
  the sequential behaviour of the two operations, each executed as one step.
\<close>

type_synonym size_t = "64 word"

record 'a SPSCQueue =
  buf :: "'a list"
  head :: size_t
  tail :: size_t

definition capacity_ok :: "size_t \<Rightarrow> bool" where
  "capacity_ok CapacityPow2 = (CapacityPow2 AND (CapacityPow2 - 1) = 0)"

definition ring_mask :: "size_t \<Rightarrow> size_t" where
  "ring_mask CapacityPow2 = CapacityPow2 - 1"

text \<open>A freshly constructed queue: \<open>buf_{}\<close> holds \<open>CapacityPow2\<close> value-initialised
  elements \<open>d\<close>, both indices are zero.\<close>

definition SPSCQueue_init :: "size_t \<Rightarrow> 'a \<Rightarrow> 'a SPSCQueue" where
  "SPSCQueue_init CapacityPow2 d = \<lparr>buf = replicate (unat CapacityPow2) d, head = 0, tail = 0\<rparr>"

text \<open>\<open>try_push\<close> returns its boolean result and the queue after the call. The store
  \<open>buf_[head] = v\<close> is a list update; in every state that satisfies \<open>queue_inv\<close> below
  the index is in range.\<close>

definition try_push :: "size_t \<Rightarrow> 'a \<Rightarrow> 'a SPSCQueue \<Rightarrow> bool \<times> 'a SPSCQueue" where
  "try_push CapacityPow2 v q =
     (let h = head q;
          next = (h + 1) AND ring_mask CapacityPow2
      in if next = tail q then (False, q)
         else (True, q\<lparr>buf := (buf q)[unat h := v], head := next\<rparr>))"

text \<open>\<open>try_pop\<close> returns \<open>None\<close> for \<open>std::nullopt\<close>. Moving out of \<open>buf_[tail]\<close>
  leaves the slot's content as it is (the message type is trivially copyable); the index is
  in range in every state that satisfies \<open>queue_inv\<close>.\<close>

definition try_pop :: "size_t \<Rightarrow> 'a SPSCQueue \<Rightarrow> 'a option \<times> 'a SPSCQueue" where
  "try_pop CapacityPow2 q =
     (let t = tail q
      in if t = head q then (None, q)
         else (Some (buf q ! unat t), q\<lparr>tail := (t + 1) AND ring_mask CapacityPow2\<rparr>))"

text \<open>Calling \<open>try_push\<close> once per item, in order: the results and the final queue.\<close>

fun push_all :: "size_t \<Rightarrow> 'a list \<Rightarrow> 'a SPSCQueue \<Rightarrow> bool list \<times> 'a SPSCQueue" where
  "push_all c [] q = ([], q)"
| "push_all c (x # xs) q =
     (let (ok, q1) = try_push c x q; (oks, q2) = push_all c xs q1 in (ok # oks, q2))"

text \<open>Calling \<open>try_pop\<close> \<open>n\<close> times: the results in order and the final queue.\<close>

fun pop_n :: "size_t \<Rightarrow> nat \<Rightarrow> 'a SPSCQueue \<Rightarrow> 'a option list \<times> 'a SPSCQueue" where
  "pop_n c 0 q = ([], q)"
| "pop_n c (Suc n) q =
     (let (r, q1) = try_pop c q; (rs, q2) = pop_n c n q1 in (r # rs, q2))"

text \<open>The indices stay inside the backing array, which has \<open>CapacityPow2\<close> cells.\<close>

definition queue_inv :: "size_t \<Rightarrow> 'a SPSCQueue \<Rightarrow> bool" where
  "queue_inv c q = (length (buf q) = unat c \<and> head q < c \<and> tail q < c)"

text \<open>The items that were pushed and not yet popped, oldest first: the cells from
  \<open>tail_\<close> up to, not including, \<open>head_\<close>, around the ring.\<close>

definition pending :: "size_t \<Rightarrow> 'a SPSCQueue \<Rightarrow> 'a list" where
  "pending c q =
     map (\<lambda>i. buf q ! ((unat (tail q) + i) mod unat c))
       [0 ..< (unat (head q) + unat c - unat (tail q)) mod unat c]"

text \<open>A queue is full, for \<open>try_push\<close>, when \<open>CapacityPow2 - 1\<close> items are pending.\<close>

definition is_full :: "size_t \<Rightarrow> 'a SPSCQueue \<Rightarrow> bool" where
  "is_full c q = (length (pending c q) = unat c - 1)"

section \<open>Messages, parameter table and worker (main.cpp)\<close>

datatype Msg =
    SetParam_TemperatureSetpoint TemperatureSetpoint
  | SetParam_HighTemperatureAlarm HighTemperatureAlarm
  | SetParam_FanDutyCycle FanDutyCycle
  | Stop

text \<open>The members \<open>t\<close>, \<open>a\<close> and \<open>f\<close> of the table.\<close>

record ParameterTable =
  tbl_t :: TemperatureSetpoint
  tbl_a :: HighTemperatureAlarm
  tbl_f :: FanDutyCycle

definition ParameterTable_init :: ParameterTable where
  "ParameterTable_init =
     \<lparr>tbl_t = default_v_TemperatureSetpoint,
      tbl_a = default_v_HighTemperatureAlarm,
      tbl_f = default_v_FanDutyCycle\<rparr>"

text \<open>The three instances of the member template \<open>set\<close>.\<close>

definition set_TemperatureSetpoint :: "TemperatureSetpoint \<Rightarrow> ParameterTable \<Rightarrow> ParameterTable" where
  "set_TemperatureSetpoint v tbl = tbl\<lparr>tbl_t := v\<rparr>"

definition set_HighTemperatureAlarm :: "HighTemperatureAlarm \<Rightarrow> ParameterTable \<Rightarrow> ParameterTable" where
  "set_HighTemperatureAlarm v tbl = tbl\<lparr>tbl_a := v\<rparr>"

definition set_FanDutyCycle :: "FanDutyCycle \<Rightarrow> ParameterTable \<Rightarrow> ParameterTable" where
  "set_FanDutyCycle v tbl = tbl\<lparr>tbl_f := v\<rparr>"

text \<open>
  The state the worker acts on: the queue and the table it holds by reference, its
  \<open>running_\<close> flag, the characters written to \<open>std::cout\<close> so far, and where its thread
  is: not started, inside the loop of \<open>run\<close>, or returned from \<open>run\<close>.
\<close>

datatype thread_state = NotStarted | InLoop | Returned

record ParamWorker =
  queue :: "Msg SPSCQueue"
  table :: ParameterTable
  running :: bool
  worker :: thread_state
  cout :: string

text \<open>The worker's queue type is \<open>SPSCQueue<Msg, 1024>\<close>; a value-initialised \<open>Msg\<close>
  holds the first alternative with a zero value.\<close>

definition worker_capacity :: size_t where
  "worker_capacity = 1024"

definition Msg_init :: Msg where
  "Msg_init = SetParam_TemperatureSetpoint \<lparr>value = Finite 0\<rparr>"

text \<open>The state of \<open>main\<close> after the table, the queue and the worker are constructed.\<close>

definition ParamWorker_init :: ParamWorker where
  "ParamWorker_init =
     \<lparr>queue = SPSCQueue_init worker_capacity Msg_init,
      table = ParameterTable_init,
      running = False,
      worker = NotStarted,
      cout = []\<rparr>"

definition start :: "ParamWorker \<Rightarrow> ParamWorker" where
  "start s = s\<lparr>running := True, worker := InLoop\<rparr>"

definition reject_notice :: "string \<Rightarrow> string" where
  "reject_notice name = ''[Reject] '' @ name @ '' value'' @ [CHR 0x0A]"

definition handle_Stop :: "ParamWorker \<Rightarrow> ParamWorker" where
  "handle_Stop s = s\<lparr>running := False\<rparr>"

text \<open>The three instances of \<open>handle(const SetParam<Tag>&)\<close>. In the rejecting branch the
  value is serialised into a local buffer that is not used afterwards; only the notice
  reaches \<open>std::cout\<close>.\<close>

definition handle_TemperatureSetpoint :: "TemperatureSetpoint \<Rightarrow> ParamWorker \<Rightarrow> ParamWorker" where
  "handle_TemperatureSetpoint v s =
     (if validate_TemperatureSetpoint v
      then s\<lparr>table := set_TemperatureSetpoint v (table s)\<rparr>
      else s\<lparr>cout := cout s @ reject_notice name_TemperatureSetpoint\<rparr>)"

definition handle_HighTemperatureAlarm :: "HighTemperatureAlarm \<Rightarrow> ParamWorker \<Rightarrow> ParamWorker" where
  "handle_HighTemperatureAlarm v s =
     (if validate_HighTemperatureAlarm v
      then s\<lparr>table := set_HighTemperatureAlarm v (table s)\<rparr>
      else s\<lparr>cout := cout s @ reject_notice name_HighTemperatureAlarm\<rparr>)"

definition handle_FanDutyCycle :: "FanDutyCycle \<Rightarrow> ParamWorker \<Rightarrow> ParamWorker" where
  "handle_FanDutyCycle v s =
     (if validate_FanDutyCycle v
      then s\<lparr>table := set_FanDutyCycle v (table s)\<rparr>
      else s\<lparr>cout := cout s @ reject_notice name_FanDutyCycle\<rparr>)"

text \<open>\<open>std::visit\<close> over the four alternatives.\<close>

fun handle :: "Msg \<Rightarrow> ParamWorker \<Rightarrow> ParamWorker" where
  "handle (SetParam_TemperatureSetpoint v) s = handle_TemperatureSetpoint v s"
| "handle (SetParam_HighTemperatureAlarm v) s = handle_HighTemperatureAlarm v s"
| "handle (SetParam_FanDutyCycle v) s = handle_FanDutyCycle v s"
| "handle Stop s = handle_Stop s"

text \<open>
  One evaluation of the loop of \<open>run\<close>: the test of \<open>running_\<close> and, when it holds, the
  body (a pop followed by the dispatch, or the sleep when nothing was popped). When the test
  fails \<open>run\<close> returns. A thread that is not inside the loop does nothing.
\<close>

definition run_iteration :: "ParamWorker \<Rightarrow> ParamWorker" where
  "run_iteration s =
     (if worker s \<noteq> InLoop then s
      else if running s then
        (case try_pop worker_capacity (queue s) of
           (Some m, q') \<Rightarrow> handle m (s\<lparr>queue := q'\<rparr>)
         | (None, q') \<Rightarrow> s)
      else s\<lparr>worker := Returned\<rparr>)"

text \<open>The producer and the worker interleave: the producer pushes one message (the result of
  \<open>try_push\<close> is not looked at, as in \<open>main\<close>), or the worker evaluates its loop once.\<close>

datatype event = Push Msg | Iterate

fun step :: "event \<Rightarrow> ParamWorker \<Rightarrow> ParamWorker" where
  "step (Push m) s = s\<lparr>queue := snd (try_push worker_capacity m (queue s))\<rparr>"
| "step Iterate s = run_iteration s"

fun exec :: "event list \<Rightarrow> ParamWorker \<Rightarrow> ParamWorker" where
  "exec [] s = s"
| "exec (e # es) s = exec es (step e s)"

text \<open>Every slot of the table satisfies the validator of its kind.\<close>

definition table_valid :: "ParameterTable \<Rightarrow> bool" where
  "table_valid tbl =
     (validate_TemperatureSetpoint (tbl_t tbl)
      \<and> validate_HighTemperatureAlarm (tbl_a tbl)
      \<and> validate_FanDutyCycle (tbl_f tbl))"

section \<open>Validation\<close>

lemma float_range_iff:
  "(float_ge v (Finite lo) \<and> float_le v (Finite hi)) = (v \<in> closed_range lo hi)"
  by (cases v) (auto simp: float_ge_def closed_range_def)

lemma not_in_closed_range [simp]:
  "NaN \<notin> closed_range lo hi" "PInf \<notin> closed_range lo hi" "NInf \<notin> closed_range lo hi"
  by (simp_all add: closed_range_def)

lemma validate_TemperatureSetpoint_iff:
  "validate_TemperatureSetpoint x = (value x \<in> closed_range 0 100)"
  unfolding validate_TemperatureSetpoint_def by (rule float_range_iff)

lemma validate_HighTemperatureAlarm_iff:
  "validate_HighTemperatureAlarm x = (threshold x \<in> closed_range 0 150)"
  unfolding validate_HighTemperatureAlarm_def by (rule float_range_iff)

lemma validate_FanDutyCycle_iff:
  "validate_FanDutyCycle x = (percent x \<in> closed_range 0 100)"
  unfolding validate_FanDutyCycle_def by (rule float_range_iff)

text \<open>
  Claim C3. For every float value and every parameter kind, \<open>validate\<close> is true exactly
  when the value lies in the kind's closed range: \<open>[0, 100]\<close> for TemperatureSetpoint,
  \<open>[0, 150]\<close> for HighTemperatureAlarm, \<open>[0, 100]\<close> for FanDutyCycle. In particular it is
  false for a NaN and for both infinities.
\<close>

theorem validate_iff_in_range:
  "validate_TemperatureSetpoint \<lparr>value = v\<rparr> = (v \<in> closed_range 0 100)
   \<and> validate_HighTemperatureAlarm \<lparr>threshold = v\<rparr> = (v \<in> closed_range 0 150)
   \<and> validate_FanDutyCycle \<lparr>percent = v\<rparr> = (v \<in> closed_range 0 100)
   \<and> \<not> validate_TemperatureSetpoint \<lparr>value = NaN\<rparr>
   \<and> \<not> validate_TemperatureSetpoint \<lparr>value = PInf\<rparr>
   \<and> \<not> validate_TemperatureSetpoint \<lparr>value = NInf\<rparr>
   \<and> \<not> validate_HighTemperatureAlarm \<lparr>threshold = NaN\<rparr>
   \<and> \<not> validate_HighTemperatureAlarm \<lparr>threshold = PInf\<rparr>
   \<and> \<not> validate_HighTemperatureAlarm \<lparr>threshold = NInf\<rparr>
   \<and> \<not> validate_FanDutyCycle \<lparr>percent = NaN\<rparr>
   \<and> \<not> validate_FanDutyCycle \<lparr>percent = PInf\<rparr>
   \<and> \<not> validate_FanDutyCycle \<lparr>percent = NInf\<rparr>"
  by (simp add: validate_TemperatureSetpoint_iff validate_HighTemperatureAlarm_iff
      validate_FanDutyCycle_iff)

section \<open>Rounding to binary32\<close>

lemma round_half_even_of_int [simp]: "round_half_even (of_int n) = n"
  by (simp add: round_half_even_def)

lemma round_half_even_error: "\<bar>of_int (round_half_even x) - x\<bar> \<le> 1 / 2"
proof -
  have "of_int \<lfloor>x\<rfloor> \<le> x" "x < of_int \<lfloor>x\<rfloor> + 1" by linarith+
  then show ?thesis by (auto simp: round_half_even_def Let_def)
qed

lemma round_half_even_near:
  assumes "\<bar>x - of_int n\<bar> < 1 / 2"
  shows "round_half_even x = n"
proof -
  have "\<bar>of_int (round_half_even x) - x\<bar> \<le> 1 / 2" by (rule round_half_even_error)
  with assms have "\<bar>(of_int (round_half_even x) :: rat) - of_int n\<bar> < 1" by linarith
  then have "\<bar>(of_int (round_half_even x - n) :: rat)\<bar> < 1" by simp
  then have "\<bar>round_half_even x - n\<bar> < 1" by (simp only: of_int_abs [symmetric] of_int_less_1_iff)
  then show ?thesis by linarith
qed

lemma round_half_even_le:
  assumes "x \<le> of_int n"
  shows "round_half_even x \<le> n"
proof -
  have "\<bar>of_int (round_half_even x) - x\<bar> \<le> 1 / 2" by (rule round_half_even_error)
  with assms have "(of_int (round_half_even x) :: rat) < of_int n + 1" by linarith
  then have "(of_int (round_half_even x) :: rat) < of_int (n + 1)" by simp
  then have "round_half_even x < n + 1" by (simp only: of_int_less_iff)
  then show ?thesis by simp
qed

lemma round_half_even_ge:
  assumes "of_int n \<le> x"
  shows "n \<le> round_half_even x"
proof -
  have "\<bar>of_int (round_half_even x) - x\<bar> \<le> 1 / 2" by (rule round_half_even_error)
  with assms have "(of_int n :: rat) - 1 < of_int (round_half_even x)" by linarith
  then have "(of_int (n - 1) :: rat) < of_int (round_half_even x)" by simp
  then have "n - 1 < round_half_even x" by (simp only: of_int_less_iff)
  then show ?thesis by simp
qed

lemma first_binade_mem: "first_binade x es = 127 \<or> first_binade x es \<in> set es"
  by (induction es) auto

lemma first_binade_le:
  "sorted es \<Longrightarrow> e \<in> set es \<Longrightarrow> x < 2 powi (e + 1) \<Longrightarrow> e \<le> 127 \<Longrightarrow> first_binade x es \<le> e"
  by (induction es) auto

lemma first_binade_eq:
  "sorted es \<Longrightarrow> distinct es \<Longrightarrow> e \<in> set es \<Longrightarrow> x < 2 powi (e + 1) \<Longrightarrow>
   (\<forall>e' \<in> set es. e' < e \<longrightarrow> \<not> x < 2 powi (e' + 1)) \<Longrightarrow> first_binade x es = e"
  by (induction es) auto

lemma binade_range: "- 126 \<le> binade x \<and> binade x \<le> 127"
proof -
  from first_binade_mem [of x "[-126 .. 126]"]
  have "binade x = 127 \<or> binade x \<in> {-126 .. 126}"
    by (simp only: binade_def set_upto)
  then show ?thesis by auto
qed

lemma binade_le:
  assumes "x < 2 powi (e + 1)" "- 126 \<le> e" "e \<le> 126"
  shows "binade x \<le> e"
  unfolding binade_def
proof (rule first_binade_le)
  show "sorted [- 126..126]" by (rule sorted_upto)
  show "e \<in> set [- 126..126]" using assms by (simp only: set_upto atLeastAtMost_iff)
  show "e \<le> 127" using assms by simp
qed (rule assms)

lemma binade_eq:
  assumes "2 powi e \<le> x" "x < 2 powi (e + 1)" "- 126 \<le> e" "e \<le> 126"
  shows "binade x = e"
  unfolding binade_def
proof (rule first_binade_eq)
  show "sorted [- 126..126]" by (rule sorted_upto)
  show "distinct [- 126..126]" by (rule distinct_upto)
  show "e \<in> set [- 126..126]" using assms by (simp only: set_upto atLeastAtMost_iff)
  show "\<forall>e'\<in>set [- 126..126]. e' < e \<longrightarrow> \<not> x < 2 powi (e' + 1)"
  proof (intro ballI impI)
    fix e' :: int assume "e' < e"
    then have "(2::rat) powi (e' + 1) \<le> 2 powi e" by (intro power_int_increasing) auto
    with assms(1) show "\<not> x < 2 powi (e' + 1)" by simp
  qed
qed (rule assms)

lemma binade_subnormal:
  assumes "x < 2 powi (- 125)"
  shows "binade x = - 126"
proof -
  have "binade x \<le> - 126" using assms by (intro binade_le) simp_all
  with binade_range [of x] show ?thesis by simp
qed

text \<open>Rounding a magnitude below 256 that does not exceed the integer B.\<close>

lemma round_binary32_bounded:
  assumes "0 \<le> x" and "x \<le> of_nat B" and "B < 256"
  shows "\<exists>y. round_binary32 neg x = (if y = 0 then (if neg then NegZero else Finite 0)
                                       else Finite (if neg then - y else y))
            \<and> 0 \<le> y \<and> y \<le> of_nat B \<and> \<bar>y - x\<bar> \<le> 1 / 2 ^ 17"
proof -
  define e where "e = binade x"
  define n where "n = nat (23 - e)"
  define q :: rat where "q = 2 powi (e - 23)"
  define m where "m = round_half_even (x / q)"
  have "x < 2 powi (7 + 1)" using assms by simp
  then have "e \<le> 7" unfolding e_def by (intro binade_le) simp_all
  moreover have "- 126 \<le> e" unfolding e_def using binade_range by simp
  ultimately have n: "16 \<le> n" "e - 23 = - int n" by (simp_all add: n_def)
  have q: "q = 1 / 2 ^ n" unfolding q_def n(2) by (simp add: power_int_minus field_simps)
  have qpos: "0 < q" by (simp add: q)
  have "(2::rat) ^ 16 \<le> 2 ^ n" using n(1) by (intro power_increasing) simp_all
  then have qle: "q \<le> 1 / 2 ^ 16" unfolding q by (simp add: field_simps)
  have err: "\<bar>of_int m - x / q\<bar> \<le> 1 / 2" unfolding m_def by (rule round_half_even_error)
  have "\<bar>of_int m * q - x\<bar> = \<bar>of_int m - x / q\<bar> * q"
    using qpos by (simp add: abs_mult [symmetric] field_simps del: abs_mult)
  also have "\<dots> \<le> 1 / 2 * q" using err qpos by (intro mult_right_mono) simp_all
  also have "\<dots> \<le> 1 / 2 ^ 17" using qle by simp
  finally have close: "\<bar>of_int m * q - x\<bar> \<le> 1 / 2 ^ 17" .
  have "of_int 0 \<le> x / q" using assms(1) qpos by simp
  then have "0 \<le> m" unfolding m_def by (rule round_half_even_ge)
  then have ynn: "0 \<le> of_int m * q" using qpos by simp
  have "x / q \<le> of_nat B / q" using assms(2) qpos by (simp add: divide_right_mono)
  also have "of_nat B / q = of_int (int B * 2 ^ n)" by (simp add: q)
  finally have "m \<le> int B * 2 ^ n" unfolding m_def by (rule round_half_even_le)
  then have "(of_int m :: rat) \<le> of_int (int B * 2 ^ n)" by (simp only: of_int_le_iff)
  then have "of_int m * q \<le> of_int (int B * 2 ^ n) * q" using qpos by (intro mult_right_mono) simp_all
  also have "\<dots> = of_nat B" by (simp add: q)
  finally have yle: "of_int m * q \<le> of_nat B" .
  have "of_nat B < (2::rat) powi 128" using assms(3)
  proof -
    have "(of_nat B :: rat) < 256" using assms(3) by simp
    also have "\<dots> \<le> 2 powi 128" by simp
    finally show ?thesis .
  qed
  with yle have small: "\<not> 2 powi 128 \<le> of_int m * q" by simp
  have "round_binary32 neg x = (if of_int m * q = 0 then (if neg then NegZero else Finite 0)
                                       else Finite (if neg then - (of_int m * q) else of_int m * q))"
    using small by (simp add: round_binary32_def Let_def e_def [symmetric] q_def [symmetric] m_def [symmetric])
  with ynn yle close show ?thesis by blast
qed

section \<open>Scanning the text of a number with two decimals\<close>

declare digits_of.simps [simp del]

lemma of_char_digit_char: "d < 10 \<Longrightarrow> (of_char (digit_char d) :: nat) = 48 + d"
  by (simp add: digit_char_def)

lemma is_digit_digit_char: "d < 10 \<Longrightarrow> is_digit (digit_char d)"
  by (simp add: is_digit_def of_char_digit_char)

lemma digit_val_digit_char: "d < 10 \<Longrightarrow> digit_val (digit_char d) = d"
  by (simp add: digit_val_def of_char_digit_char)

lemma is_digit_neq:
  assumes "is_digit c"
  shows "c \<noteq> CHR ''.''" "c \<noteq> CHR 0x00" "c \<noteq> CHR ''-''" "c \<noteq> CHR ''+''" "\<not> is_space c"
    "to_lower c = c" "c \<noteq> CHR ''i''" "c \<noteq> CHR ''n''" "c \<noteq> CHR ''x''" "c \<noteq> CHR ''e''"
  using assms by (auto simp: is_digit_def is_space_def to_lower_def)

lemma not_is_digit_dot: "\<not> is_digit CHR ''.''"
  by (simp add: is_digit_def)

lemma digits_of_digits: "c \<in> set (digits_of n) \<Longrightarrow> is_digit c"
proof (induction n arbitrary: c rule: digits_of.induct)
  case (1 n)
  show ?case
  proof (cases "n < 10")
    case True
    with "1.prems" show ?thesis by (simp add: digits_of.simps [of n] is_digit_digit_char)
  next
    case False
    with "1.prems" "1.IH" show ?thesis
      by (auto simp: digits_of.simps [of n] is_digit_digit_char)
  qed
qed

lemma digits_of_not_Nil: "digits_of n \<noteq> []"
  by (simp add: digits_of.simps [of n])

lemma nat_of_digits_snoc: "nat_of_digits (ds @ [c]) = 10 * nat_of_digits ds + digit_val c"
  by (simp add: nat_of_digits_def)

lemma nat_of_digits_digits_of: "nat_of_digits (digits_of n) = n"
proof (induction n rule: digits_of.induct)
  case (1 n)
  show ?case
  proof (cases "n < 10")
    case True
    then show ?thesis by (simp add: digits_of.simps [of n] nat_of_digits_def digit_val_digit_char)
  next
    case False
    with "1.IH" show ?thesis
      by (simp add: digits_of.simps [of n] nat_of_digits_snoc digit_val_digit_char)
  qed
qed

text \<open>The text of a number with two decimals: digits, a point, two digits.\<close>

lemma scan_decimal_two_decimals:
  assumes ds: "ds \<noteq> []" "\<forall>c \<in> set ds. is_digit c" and d: "is_digit d1" "is_digit d0"
  shows "scan_decimal (ds @ CHR ''.'' # [d1, d0])
       = Some (of_nat (nat_of_digits (ds @ [d1, d0])) / 100, length ds + 3)"
proof -
  let ?s = "ds @ CHR ''.'' # [d1, d0]"
  have tw: "takeWhile is_digit ?s = ds"
    using ds(2) by (simp add: takeWhile_append2 not_is_digit_dot)
  have dw: "dropWhile is_digit ?s = CHR ''.'' # [d1, d0]"
    using ds(2) by (simp add: dropWhile_append2 not_is_digit_dot)
  have sig: "scan_significand is_digit ?s = Some (ds, [d1, d0], length ds + 3)"
    using d ds(1) by (simp add: scan_significand_def tw dw)
  show ?thesis
    by (simp add: scan_decimal_def sig scan_exponent_def)
qed

lemma scan_special_digit:
  assumes "is_digit c"
  shows "scan_special (c # r) = None"
  using is_digit_neq(6,7,8) [OF assms] by (simp add: scan_special_def)

lemma scan_hex_plain:
  assumes "\<forall>c \<in> set s. is_digit c \<or> c = CHR ''.''"
  shows "scan_hex s = None"
proof (cases s)
  case Nil
  then show ?thesis by (simp add: scan_hex_def)
next
  case (Cons a r)
  show ?thesis
  proof (cases r)
    case Nil
    with Cons show ?thesis by (simp add: scan_hex_def)
  next
    case (Cons b r')
    with assms \<open>s = a # r\<close> have "is_digit b \<or> b = CHR ''.''" by simp
    then have "to_lower b \<noteq> CHR ''x''"
    proof
      assume "is_digit b"
      from is_digit_neq(6,9) [OF this] show ?thesis by simp
    next
      assume "b = CHR ''.''"
      then show ?thesis by (simp add: to_lower_def)
    qed
    with Cons \<open>s = a # r\<close> show ?thesis by (simp add: scan_hex_def)
  qed
qed

lemma c_str_plain:
  assumes "\<forall>c \<in> set s. is_digit c \<or> c = CHR ''.''"
  shows "c_str s = s"
  unfolding c_str_def
proof (rule takeWhile_eq_all_conv [THEN iffD2], rule ballI)
  fix c assume "c \<in> set s"
  with assms have "is_digit c \<or> c = CHR ''.''" by blast
  then show "c \<noteq> CHR 0x00" using is_digit_neq(2) by auto
qed

text \<open>Both library routines read an unsigned decimal text as the number it shows, rounded.\<close>

lemma from_chars_unsigned:
  assumes "take 1 s \<noteq> ''-''" and "scan_special s = None" and "scan_decimal s = Some (x, n)"
    and "round_binary32 False x = Finite y" and "x \<noteq> 0 \<longrightarrow> y \<noteq> 0"
  shows "from_chars s val = (\<lparr>ptr = n, ec = errc_ok\<rparr>, Finite y)"
  using assms by (auto simp add: from_chars_def)

lemma strtof_unsigned:
  assumes "takeWhile is_space s = []" and "take 1 s \<noteq> ''-''" and "take 1 s \<noteq> ''+''"
    and "scan_special s = None" and "scan_hex s = None" and "scan_decimal s = Some (x, n)"
  shows "strtof s = (round_binary32 False x, n)"
  using assms by (simp add: strtof_def)

lemma parse_float_unsigned:
  assumes "c_str s = s" and "0 < n"
    and "from_chars s out = (\<lparr>ptr = n, ec = errc_ok\<rparr>, v)" and "strtof s = (v, n)"
  shows "parse_float tc (Some s) out = (True, v)"
  using assms by (simp add: parse_float_def strtof_fallback_def)

lemma parse_float_two_decimals:
  assumes ds: "ds \<noteq> []" "\<forall>c \<in> set ds. is_digit c" and d: "is_digit d1" "is_digit d0"
    and x: "x = of_nat (nat_of_digits (ds @ [d1, d0])) / 100"
    and r: "round_binary32 False x = Finite y" "x \<noteq> 0 \<longrightarrow> y \<noteq> 0"
  shows "parse_float tc (Some (ds @ CHR ''.'' # [d1, d0])) out = (True, Finite y)"
proof -
  define s where "s = ds @ CHR ''.'' # [d1, d0]"
  obtain c cs where c: "ds = c # cs" "is_digit c" using ds by (cases ds) auto
  have plain: "\<forall>c \<in> set s. is_digit c \<or> c = CHR ''.''"
    using ds(2) d by (auto simp: s_def)
  have hd: "s = c # cs @ CHR ''.'' # [d1, d0]" by (simp add: s_def c(1))
  have ws: "takeWhile is_space s = []"
    using is_digit_neq(5) [OF c(2)] by (simp add: hd)
  have sg: "take 1 s \<noteq> ''-''" "take 1 s \<noteq> ''+''"
    using is_digit_neq(3,4) [OF c(2)] by (simp_all add: hd)
  have sp: "scan_special s = None"
    unfolding hd by (rule scan_special_digit [OF c(2)])
  have hx: "scan_hex s = None" using plain by (rule scan_hex_plain)
  have dec: "scan_decimal s = Some (x, length ds + 3)"
    unfolding s_def x by (rule scan_decimal_two_decimals [OF ds d])
  have "parse_float tc (Some s) out = (True, Finite y)"
  proof (rule parse_float_unsigned)
    show "c_str s = s" using plain by (rule c_str_plain)
    show "0 < length ds + 3" by simp
    show "from_chars s out = (\<lparr>ptr = length ds + 3, ec = errc_ok\<rparr>, Finite y)"
      using sg(1) sp dec r by (rule from_chars_unsigned)
    show "strtof s = (Finite y, length ds + 3)"
      using strtof_unsigned [OF ws sg sp hx dec] r(1) by simp
  qed
  then show ?thesis by (simp only: s_def)
qed

lemma two_decimals_split:
  fixes k :: nat
  shows "10 * (10 * (k div 100) + k mod 100 div 10) + k mod 10 = k"
proof -
  define a where "a = k div 100"
  define m where "m = k mod 100"
  define b where "b = m div 10"
  define c where "c = m mod 10"
  have 1: "k = 100 * a + m" by (simp add: a_def m_def)
  have 2: "m = 10 * b + c" by (simp add: b_def c_def)
  have "k mod 100 mod 10 = k mod 10" by (rule mod_mod_cancel) simp
  then have 3: "k mod 10 = c" by (simp add: c_def m_def)
  have "10 * (10 * a + b) + c = k" using 1 2 by simp
  then show ?thesis by (simp only: a_def b_def m_def 3 [symmetric])
qed

lemma two_decimals_value:
  "nat_of_digits (digits_of (k div 100) @ [digit_char (k mod 100 div 10), digit_char (k mod 10)]) = k"
proof -
  have "nat_of_digits ((digits_of (k div 100) @ [digit_char (k mod 100 div 10)]) @ [digit_char (k mod 10)])
      = 10 * (10 * (k div 100) + k mod 100 div 10) + k mod 10"
    by (simp only: nat_of_digits_snoc nat_of_digits_digits_of) (simp add: digit_val_digit_char)
  then show ?thesis by (simp only: two_decimals_split append_assoc append_Cons append_Nil)
qed

lemma format_2f_nonneg:
  assumes "0 \<le> r"
  shows "format_2f (Finite r) =
     digits_of (nat (round_half_even (r * 100)) div 100)
     @ CHR ''.'' # [digit_char (nat (round_half_even (r * 100)) mod 100 div 10),
                    digit_char (nat (round_half_even (r * 100)) mod 10)]"
  using assms by (simp add: format_2f_def Let_def)

lemma length_digits_of: "a < 1000 \<Longrightarrow> length (digits_of a) \<le> 3"
  by (simp add: digits_of.simps [of a] digits_of.simps [of "a div 10"]
      digits_of.simps [of "a div 10 div 10"])

lemma parse_float_format_2f:
  assumes "0 \<le> r" and "r \<le> of_nat B" and "B < 256"
  shows "\<exists>y. parse_float tc (Some (format_2f (Finite r))) out = (True, Finite y)
            \<and> 0 \<le> y \<and> y \<le> of_nat B \<and> format_2f (Finite y) = format_2f (Finite r)
            \<and> length (format_2f (Finite r)) \<le> 6"
proof -
  define K where "K = round_half_even (r * 100)"
  define k where "k = nat K"
  define x :: rat where "x = of_nat k / 100"
  have "of_int 0 \<le> r * 100" using assms(1) by simp
  then have K0: "0 \<le> K" unfolding K_def by (rule round_half_even_ge)
  have "r * 100 \<le> of_int (int B * 100)" using assms(2) by simp
  then have KB: "K \<le> int B * 100" unfolding K_def by (rule round_half_even_le)
  have kK: "(of_nat k :: rat) = of_int K" using K0 by (simp add: k_def)
  have x0: "0 \<le> x" by (simp add: x_def)
  have "(of_int K :: rat) \<le> of_int (int B * 100)" using KB by (simp only: of_int_le_iff)
  then have xB: "x \<le> of_nat B" by (simp add: x_def kK)
  from round_binary32_bounded [OF x0 xB assms(3), of False]
  obtain y where y: "round_binary32 False x = Finite y" "0 \<le> y" "y \<le> of_nat B"
    "\<bar>y - x\<bar> \<le> 1 / 2 ^ 17"
    by (auto split: if_splits)
  have nz: "x \<noteq> 0 \<longrightarrow> y \<noteq> 0"
  proof
    assume "x \<noteq> 0"
    then have "1 \<le> k" by (simp add: x_def)
    then have "(of_nat 1 :: rat) \<le> of_nat k" by (simp only: of_nat_le_iff)
    then have "1 / 100 \<le> x" by (simp add: x_def)
    moreover have "(1::rat) / 2 ^ 17 < 1 / 100" by simp
    ultimately show "y \<noteq> 0" using y(4) by linarith
  qed
  let ?ds = "digits_of (k div 100)"
  let ?d1 = "digit_char (k mod 100 div 10)" and ?d0 = "digit_char (k mod 10)"
  have shape: "format_2f (Finite r) = ?ds @ CHR ''.'' # [?d1, ?d0]"
    unfolding k_def K_def by (rule format_2f_nonneg [OF assms(1)])
  have "parse_float tc (Some (?ds @ CHR ''.'' # [?d1, ?d0])) out = (True, Finite y)"
  proof (rule parse_float_two_decimals)
    show "?ds \<noteq> []" by (rule digits_of_not_Nil)
    show "\<forall>c\<in>set ?ds. is_digit c" using digits_of_digits by blast
    show "is_digit ?d1" "is_digit ?d0" by (simp_all add: is_digit_digit_char)
    show "x = of_nat (nat_of_digits (?ds @ [?d1, ?d0])) / 100"
      by (simp only: two_decimals_value x_def)
  qed (rule y(1), rule nz)
  then have parse: "parse_float tc (Some (format_2f (Finite r))) out = (True, Finite y)"
    by (simp only: shape)
  have "y * 100 - of_int K = (y - x) * 100" by (simp add: x_def kK algebra_simps)
  then have "\<bar>y * 100 - of_int K\<bar> = \<bar>y - x\<bar> * 100" by (simp only: abs_mult abs_numeral)
  also have "\<dots> \<le> 1 / 2 ^ 17 * 100" using y(4) by (intro mult_right_mono) simp_all
  also have "\<dots> < 1 / 2" by simp
  finally have "round_half_even (y * 100) = K" by (rule round_half_even_near)
  then have same: "format_2f (Finite y) = format_2f (Finite r)"
    by (simp only: format_2f_nonneg [OF y(2)] format_2f_nonneg [OF assms(1)] K_def)
  have "k \<le> B * 100" using KB by (simp add: k_def)
  with assms(3) have "k div 100 < 1000" by simp
  then have "length ?ds \<le> 3" by (rule length_digits_of)
  then have "length (format_2f (Finite r)) \<le> 6" by (simp add: shape)
  with parse y(2,3) same show ?thesis by blast
qed

lemma round_binary32_zero: "round_binary32 neg 0 = (if neg then NegZero else Finite 0)"
  using round_half_even_of_int [of 0] by (simp add: round_binary32_def)

lemma parse_float_NegZero: "parse_float tc (Some ''-0.00'') out = (True, NegZero)"
proof -
  have dec: "scan_decimal ''0.00'' = Some (0, 4)"
    using scan_decimal_two_decimals [of "''0''" "CHR ''0''" "CHR ''0''"]
    by (simp add: is_digit_def nat_of_digits_def digit_val_def)
  have sp: "scan_special ''0.00'' = None"
    by (rule scan_special_digit) (simp add: is_digit_def)
  have hx: "scan_hex ''0.00'' = None"
    by (rule scan_hex_plain) (simp add: is_digit_def)
  have fc: "from_chars ''-0.00'' out = (\<lparr>ptr = 5, ec = errc_ok\<rparr>, NegZero)"
    by (simp add: from_chars_def sp dec round_binary32_zero)
  have st: "strtof ''-0.00'' = (NegZero, 5)"
    by (simp add: strtof_def sp dec hx round_binary32_zero is_space_def)
  show ?thesis
    by (simp add: parse_float_def c_str_def fc st strtof_fallback_def Let_def)
qed

lemma parse_float_in_range:
  assumes "v \<in> closed_range 0 (of_nat B)" and "B < 256"
  shows "\<exists>w. parse_float tc (Some (format_2f v)) out = (True, w)
            \<and> w \<in> closed_range 0 (of_nat B) \<and> format_2f w = format_2f v
            \<and> length (format_2f v) \<le> 6"
proof (cases v)
  case (Finite r)
  with assms(1) have "0 \<le> r" "r \<le> of_nat B" by (simp_all add: closed_range_def)
  from parse_float_format_2f [OF this assms(2), of tc out] Finite
  show ?thesis by (auto simp: closed_range_def)
next
  case NegZero
  then show ?thesis
    using parse_float_NegZero [of tc out] by (simp add: closed_range_def format_2f_def)
qed (use assms(1) in \<open>simp_all add: closed_range_def\<close>)

lemma safe_snp_fits:
  assumes "length (format_2f v) < n"
  shows "safe_snp v out n = (int (length (format_2f v)), format_2f v)"
  using assms by (simp add: safe_snp_def snprintf_2f_def)

section \<open>Parsing and serialising: failure, truncation and the round trip\<close>

text \<open>The text \<open>200\<close> is accepted, on both paths of \<open>parse_float\<close>, as the number 200, which
  binary32 holds exactly. A null pointer and the empty text are rejected.\<close>

lemma round_binary32_200: "round_binary32 False 200 = Finite 200"
proof -
  have "binade 200 = 7" by (rule binade_eq) simp_all
  then show ?thesis
    using round_half_even_of_int [of 13107200]
    by (simp add: round_binary32_def power_int_minus)
qed

lemma scan_decimal_200: "scan_decimal ''200'' = Some (200, 3)"
  by (simp add: scan_decimal_def scan_significand_def scan_exponent_def is_digit_def
      nat_of_digits_def digit_val_def)

lemma parse_float_200: "parse_float tc (Some ''200'') out = (True, Finite 200)"
proof (rule parse_float_unsigned)
  have sp: "scan_special ''200'' = None"
    by (rule scan_special_digit) (simp add: is_digit_def)
  have hx: "scan_hex ''200'' = None"
    by (rule scan_hex_plain) (simp add: is_digit_def)
  show "c_str ''200'' = ''200''" by (simp add: c_str_def)
  show "from_chars ''200'' out = (\<lparr>ptr = 3, ec = errc_ok\<rparr>, Finite 200)"
    by (rule from_chars_unsigned [OF _ sp scan_decimal_200 round_binary32_200]) simp_all
  show "strtof ''200'' = (Finite 200, 3)"
    using strtof_unsigned [OF _ _ _ sp hx scan_decimal_200]
    by (simp add: round_binary32_200 is_space_def)
  show "0 < (3::nat)" by simp
qed

lemma parse_float_null: "parse_float tc None out = (False, out)"
  by (simp add: parse_float_def)

lemma scan_decimal_Nil: "scan_decimal [] = None"
  by (simp add: scan_decimal_def scan_significand_def)

lemma parse_float_empty: "parse_float tc (Some []) out = (False, out)"
  by (simp add: parse_float_def c_str_def from_chars_def strtof_fallback_def strtof_def
      scan_special_def scan_decimal_Nil scan_hex_def)

text \<open>A text whose first character cannot start a number is rejected.\<close>

lemma to_lower_zero: "to_lower c = CHR ''0'' \<Longrightarrow> is_digit c"
  by (auto simp: to_lower_def is_digit_def split: if_splits
      dest: arg_cong [where f = "of_char :: char \<Rightarrow> nat"])

lemma parse_float_c_str:
  "c_str b1 = c_str b2 \<Longrightarrow> parse_float tc (Some b1) out = parse_float tc (Some b2) out"
  by (simp add: parse_float_def)

lemma record_update_all:
  "ox\<lparr>value := v\<rparr> = \<lparr>value = v\<rparr>" "oy\<lparr>threshold := v\<rparr> = \<lparr>threshold = v\<rparr>"
  "oz\<lparr>percent := v\<rparr> = \<lparr>percent = v\<rparr>"
  by (cases ox, simp) (cases oy, simp, cases oz, simp)

lemma parse_float_non_numeric:
  assumes "\<not> is_space c" and "\<not> is_digit c"
    and "c \<noteq> CHR ''+''" and "c \<noteq> CHR ''-''" and "c \<noteq> CHR ''.''"
    and "to_lower c \<noteq> CHR ''i''" and "to_lower c \<noteq> CHR ''n''"
  shows "parse_float tc (Some (c # r)) out = (False, out)"
proof (cases "c = CHR 0x00")
  case True
  then have "c_str (c # r) = c_str []" by (simp add: c_str_def)
  from parse_float_c_str [OF this] show ?thesis by (simp only: parse_float_empty)
next
  case False
  define s where "s = c # c_str r"
  from False have cs: "c_str (c # r) = s" by (simp add: c_str_def s_def)
  have sp: "scan_special s = None" using assms(6,7) by (simp add: scan_special_def s_def)
  have dec: "scan_decimal s = None"
    using assms(2,5) by (simp add: scan_decimal_def scan_significand_def s_def)
  have "to_lower c \<noteq> CHR ''0''" using assms(2) to_lower_zero by blast
  then have hx: "scan_hex s = None" by (cases "c_str r") (simp_all add: scan_hex_def s_def)
  have sg: "take 1 s \<noteq> ''-''" "take 1 s \<noteq> ''+''" "takeWhile is_space s = []"
    using assms(1,3,4) by (simp_all add: s_def)
  have fc: "from_chars s out = (\<lparr>ptr = 0, ec = invalid_argument\<rparr>, out)"
    using sg(1) by (simp add: from_chars_def sp dec)
  have st: "strtof s = (Finite 0, 0)"
    using sg by (simp add: strtof_def sp dec hx)
  show ?thesis by (simp add: parse_float_def cs fc st strtof_fallback_def)
qed

text \<open>
  Claim C1 says that a failing \<open>parse\<close> never changes its output object. It does when
  the text is a number outside the range: \<open>parse\<close> stores the number before it validates.
  For the text \<open>200\<close> and a fan duty cycle holding the default 50, \<open>parse\<close> returns failure
  and the object holds 200.
\<close>

theorem parse_failure_counterexample:
  "parse_FanDutyCycle True (Some ''200'') default_v_FanDutyCycle = (False, \<lparr>percent = Finite 200\<rparr>)
   \<and> \<lparr>percent = Finite 200\<rparr> \<noteq> default_v_FanDutyCycle"
  by (simp add: parse_FanDutyCycle_def parse_float_200 validate_FanDutyCycle_def
      default_v_FanDutyCycle_def float_ge_def Let_def)

text \<open>
  Claim C1, amended. For every kind and every text: when \<open>parse_float\<close> rejects the text,
  \<open>parse\<close> returns failure and the output object is unchanged; this is the case for a null
  pointer, for the empty text and for a text whose first character cannot start a number.
  When \<open>parse_float\<close> accepts the text, the output object holds the parsed number and
  \<open>parse\<close> returns what \<open>validate\<close> says about it; so after a failed range validation the
  object holds the number that was out of range.
\<close>

theorem parse_failure_output:
  "(if fst (parse_float tc inp (Finite 0))
    then parse_TemperatureSetpoint tc inp ox
           = (validate_TemperatureSetpoint \<lparr>value = snd (parse_float tc inp (Finite 0))\<rparr>,
              \<lparr>value = snd (parse_float tc inp (Finite 0))\<rparr>)
       \<and> parse_HighTemperatureAlarm tc inp oy
           = (validate_HighTemperatureAlarm \<lparr>threshold = snd (parse_float tc inp (Finite 0))\<rparr>,
              \<lparr>threshold = snd (parse_float tc inp (Finite 0))\<rparr>)
       \<and> parse_FanDutyCycle tc inp oz
           = (validate_FanDutyCycle \<lparr>percent = snd (parse_float tc inp (Finite 0))\<rparr>,
              \<lparr>percent = snd (parse_float tc inp (Finite 0))\<rparr>)
    else parse_TemperatureSetpoint tc inp ox = (False, ox)
       \<and> parse_HighTemperatureAlarm tc inp oy = (False, oy)
       \<and> parse_FanDutyCycle tc inp oz = (False, oz))
   \<and> \<not> fst (parse_float tc None (Finite 0))
   \<and> \<not> fst (parse_float tc (Some []) (Finite 0))
   \<and> (\<not> is_space c \<and> \<not> is_digit c \<and> c \<noteq> CHR ''+'' \<and> c \<noteq> CHR ''-'' \<and> c \<noteq> CHR ''.''
        \<and> to_lower c \<noteq> CHR ''i'' \<and> to_lower c \<noteq> CHR ''n''
      \<longrightarrow> \<not> fst (parse_float tc (Some (c # r)) (Finite 0)))"
  by (cases "parse_float tc inp (Finite 0)")
     (simp add: parse_TemperatureSetpoint_def parse_HighTemperatureAlarm_def
        parse_FanDutyCycle_def parse_float_null parse_float_empty parse_float_non_numeric
        record_update_all Let_def)

theorem parse_failure_output_witness:
  "parse_TemperatureSetpoint True (Some ''abc'') default_v_TemperatureSetpoint
      = (False, default_v_TemperatureSetpoint)
   \<and> parse_HighTemperatureAlarm True (Some ''abc'') default_v_HighTemperatureAlarm
      = (False, default_v_HighTemperatureAlarm)
   \<and> parse_FanDutyCycle True (Some ''abc'') default_v_FanDutyCycle
      = (False, default_v_FanDutyCycle)
   \<and> \<not> fst (parse_float True (Some ''abc'') (Finite 0))"
proof -
  have c: "\<not> is_space CHR ''a'' \<and> \<not> is_digit CHR ''a'' \<and> CHR ''a'' \<noteq> CHR ''+''
      \<and> CHR ''a'' \<noteq> CHR ''-'' \<and> CHR ''a'' \<noteq> CHR ''.''
      \<and> to_lower CHR ''a'' \<noteq> CHR ''i'' \<and> to_lower CHR ''a'' \<noteq> CHR ''n''"
    by (simp add: is_space_def is_digit_def to_lower_def)
  note t = parse_failure_output [of True "Some ''abc''" default_v_TemperatureSetpoint
      default_v_HighTemperatureAlarm default_v_FanDutyCycle "CHR ''a''" "''bc''"]
  from t c have f: "\<not> fst (parse_float True (Some ''abc'') (Finite 0))" by blast
  with t show ?thesis by (simp only: if_False simp_thms)
qed

text \<open>
  Claim C8. For every kind, \<open>serialize\<close> returns zero when the buffer size \<open>n\<close> is zero or
  the two-decimal text, with its terminator, does not fit in \<open>n\<close> bytes.
\<close>

theorem serialize_truncation:
  assumes "n = 0 \<or> n \<le> length (format_2f v)"
  shows "fst (safe_snp v out n) = 0
       \<and> fst (serialize_TemperatureSetpoint \<lparr>value = v\<rparr> out n) = 0
       \<and> fst (serialize_HighTemperatureAlarm \<lparr>threshold = v\<rparr> out n) = 0
       \<and> fst (serialize_FanDutyCycle \<lparr>percent = v\<rparr> out n) = 0"
  using assms
  by (auto simp: safe_snp_def snprintf_2f_def serialize_TemperatureSetpoint_def
      serialize_HighTemperatureAlarm_def serialize_FanDutyCycle_def)

lemma digit_char_simps:
  "digit_char 0 = CHR ''0''" "digit_char 1 = CHR ''1''" "digit_char 2 = CHR ''2''"
  "digit_char 3 = CHR ''3''" "digit_char 4 = CHR ''4''" "digit_char 5 = CHR ''5''"
  "digit_char 6 = CHR ''6''" "digit_char 7 = CHR ''7''" "digit_char 8 = CHR ''8''"
  "digit_char 9 = CHR ''9''"
  by code_simp+

lemma format_2f_default: "format_2f (Finite (75 / 2)) = ''37.50''"
proof -
  have "round_half_even (3750 :: rat) = 3750" using round_half_even_of_int [of 3750] by simp
  then show ?thesis
    by (simp add: format_2f_def digits_of.simps [of 37] digits_of.simps [of 3] digit_char_simps)
qed

theorem serialize_truncation_witness:
  "length (format_2f (Finite (75 / 2))) = 5
   \<and> fst (serialize_TemperatureSetpoint \<lparr>value = Finite (75 / 2)\<rparr> [] 5) = 0
   \<and> fst (serialize_TemperatureSetpoint \<lparr>value = Finite (75 / 2)\<rparr> [] 0) = 0"
proof -
  have l: "length (format_2f (Finite (75 / 2))) = 5" by (simp add: format_2f_default)
  then have "(5::nat) = 0 \<or> 5 \<le> length (format_2f (Finite (75 / 2)))" by simp
  from serialize_truncation [OF this, of "[]"]
    serialize_truncation [of 0 "Finite (75 / 2)" "[]"] l
  show ?thesis by simp
qed

lemma format_2f_not_Nil: "format_2f v \<noteq> []"
  by (cases v) (simp_all add: format_2f_def Let_def)

lemma roundtrip_float:
  assumes "v \<in> closed_range 0 (of_nat B)" and "B < 256" and "7 \<le> n"
  shows "\<exists>w. safe_snp v dst n = (int (length (format_2f v)), format_2f v)
            \<and> parse_float tc (Some (format_2f v)) (Finite 0) = (True, w)
            \<and> w \<in> closed_range 0 (of_nat B)
            \<and> safe_snp w dst' n = safe_snp v dst n"
proof -
  from parse_float_in_range [OF assms(1,2), of tc "Finite 0"]
  obtain w where w: "parse_float tc (Some (format_2f v)) (Finite 0) = (True, w)"
    "w \<in> closed_range 0 (of_nat B)" "format_2f w = format_2f v" "length (format_2f v) \<le> 6"
    by blast
  from w(4) assms(3) have fit: "length (format_2f v) < n" by simp
  then have "length (format_2f w) < n" by (simp only: w(3))
  then have "safe_snp w dst' n = (int (length (format_2f w)), format_2f w)" by (rule safe_snp_fits)
  with safe_snp_fits [OF fit, of dst] w show ?thesis by simp
qed

text \<open>
  Claim C9. For every kind and every value within the kind's bounds, \<open>validate\<close> holds,
  serialising the value into a buffer of at least seven bytes succeeds, parsing the text
  obtained succeeds, and serialising the parsed value gives the same result as serialising
  the original one. This holds with and without the \<open>from_chars\<close> block of \<open>parse_float\<close>.
\<close>

theorem serialize_parse_roundtrip:
  assumes "value x \<in> closed_range 0 100" and "threshold y \<in> closed_range 0 150"
    and "percent z \<in> closed_range 0 100" and "7 \<le> n"
  shows "validate_TemperatureSetpoint x
       \<and> 0 < fst (serialize_TemperatureSetpoint x dst n)
       \<and> fst (parse_TemperatureSetpoint tc (Some (snd (serialize_TemperatureSetpoint x dst n))) ox)
       \<and> serialize_TemperatureSetpoint
            (snd (parse_TemperatureSetpoint tc (Some (snd (serialize_TemperatureSetpoint x dst n))) ox))
            dst' n = serialize_TemperatureSetpoint x dst n
       \<and> validate_HighTemperatureAlarm y
       \<and> 0 < fst (serialize_HighTemperatureAlarm y dst n)
       \<and> fst (parse_HighTemperatureAlarm tc (Some (snd (serialize_HighTemperatureAlarm y dst n))) oy)
       \<and> serialize_HighTemperatureAlarm
            (snd (parse_HighTemperatureAlarm tc (Some (snd (serialize_HighTemperatureAlarm y dst n))) oy))
            dst' n = serialize_HighTemperatureAlarm y dst n
       \<and> validate_FanDutyCycle z
       \<and> 0 < fst (serialize_FanDutyCycle z dst n)
       \<and> fst (parse_FanDutyCycle tc (Some (snd (serialize_FanDutyCycle z dst n))) oz)
       \<and> serialize_FanDutyCycle
            (snd (parse_FanDutyCycle tc (Some (snd (serialize_FanDutyCycle z dst n))) oz))
            dst' n = serialize_FanDutyCycle z dst n"
proof -
  have x: "value x \<in> closed_range 0 (of_nat 100)" using assms(1) by simp
  have y: "threshold y \<in> closed_range 0 (of_nat 150)" using assms(2) by simp
  have z: "percent z \<in> closed_range 0 (of_nat 100)" using assms(3) by simp
  from roundtrip_float [OF x _ assms(4), of dst tc dst']
  obtain wx where wx: "safe_snp (value x) dst n = (int (length (format_2f (value x))), format_2f (value x))"
    "parse_float tc (Some (format_2f (value x))) (Finite 0) = (True, wx)"
    "wx \<in> closed_range 0 100" "safe_snp wx dst' n = safe_snp (value x) dst n"
    by auto
  from roundtrip_float [OF y _ assms(4), of dst tc dst']
  obtain wy where wy: "safe_snp (threshold y) dst n = (int (length (format_2f (threshold y))), format_2f (threshold y))"
    "parse_float tc (Some (format_2f (threshold y))) (Finite 0) = (True, wy)"
    "wy \<in> closed_range 0 150" "safe_snp wy dst' n = safe_snp (threshold y) dst n"
    by auto
  from roundtrip_float [OF z _ assms(4), of dst tc dst']
  obtain wz where wz: "safe_snp (percent z) dst n = (int (length (format_2f (percent z))), format_2f (percent z))"
    "parse_float tc (Some (format_2f (percent z))) (Finite 0) = (True, wz)"
    "wz \<in> closed_range 0 100" "safe_snp wz dst' n = safe_snp (percent z) dst n"
    by auto
  have a: "validate_TemperatureSetpoint x
       \<and> 0 < fst (serialize_TemperatureSetpoint x dst n)
       \<and> fst (parse_TemperatureSetpoint tc (Some (snd (serialize_TemperatureSetpoint x dst n))) ox)
       \<and> serialize_TemperatureSetpoint
            (snd (parse_TemperatureSetpoint tc (Some (snd (serialize_TemperatureSetpoint x dst n))) ox))
            dst' n = serialize_TemperatureSetpoint x dst n"
    using assms(1) wx format_2f_not_Nil [of "value x"]
    by (simp add: validate_TemperatureSetpoint_iff serialize_TemperatureSetpoint_def
        parse_TemperatureSetpoint_def)
  have b: "validate_HighTemperatureAlarm y
       \<and> 0 < fst (serialize_HighTemperatureAlarm y dst n)
       \<and> fst (parse_HighTemperatureAlarm tc (Some (snd (serialize_HighTemperatureAlarm y dst n))) oy)
       \<and> serialize_HighTemperatureAlarm
            (snd (parse_HighTemperatureAlarm tc (Some (snd (serialize_HighTemperatureAlarm y dst n))) oy))
            dst' n = serialize_HighTemperatureAlarm y dst n"
    using assms(2) wy format_2f_not_Nil [of "threshold y"]
    by (simp add: validate_HighTemperatureAlarm_iff serialize_HighTemperatureAlarm_def
        parse_HighTemperatureAlarm_def)
  have c: "validate_FanDutyCycle z
       \<and> 0 < fst (serialize_FanDutyCycle z dst n)
       \<and> fst (parse_FanDutyCycle tc (Some (snd (serialize_FanDutyCycle z dst n))) oz)
       \<and> serialize_FanDutyCycle
            (snd (parse_FanDutyCycle tc (Some (snd (serialize_FanDutyCycle z dst n))) oz))
            dst' n = serialize_FanDutyCycle z dst n"
    using assms(3) wz format_2f_not_Nil [of "percent z"]
    by (simp add: validate_FanDutyCycle_iff serialize_FanDutyCycle_def
        parse_FanDutyCycle_def)
  from a b c show ?thesis by (simp only: simp_thms)
qed

theorem serialize_parse_roundtrip_witness:
  "value \<lparr>value = Finite (75 / 2)\<rparr> \<in> closed_range 0 100
   \<and> threshold \<lparr>threshold = NegZero\<rparr> \<in> closed_range 0 150
   \<and> percent \<lparr>percent = Finite (1 / 3)\<rparr> \<in> closed_range 0 100
   \<and> (7 :: nat) \<le> 32
   \<and> serialize_TemperatureSetpoint \<lparr>value = Finite (75 / 2)\<rparr> [] 32 = (5, ''37.50'')
   \<and> fst (parse_TemperatureSetpoint True (Some ''37.50'') default_v_TemperatureSetpoint)
   \<and> serialize_TemperatureSetpoint
        (snd (parse_TemperatureSetpoint True (Some ''37.50'') default_v_TemperatureSetpoint)) [] 32
       = (5, ''37.50'')"
proof -
  let ?x = "\<lparr>value = Finite (75 / 2)\<rparr>"
  have h: "value ?x \<in> closed_range 0 100" "threshold \<lparr>threshold = NegZero\<rparr> \<in> closed_range 0 150"
    "percent \<lparr>percent = Finite (1 / 3)\<rparr> \<in> closed_range 0 100" "(7 :: nat) \<le> 32"
    by (simp_all add: closed_range_def)
  have s: "serialize_TemperatureSetpoint ?x [] 32 = (5, ''37.50'')"
    by (simp add: serialize_TemperatureSetpoint_def safe_snp_fits format_2f_default)
  from serialize_parse_roundtrip [OF h, of "[]" True default_v_TemperatureSetpoint "[]"]
  have "fst (parse_TemperatureSetpoint True (Some (snd (serialize_TemperatureSetpoint ?x [] 32)))
           default_v_TemperatureSetpoint)
      \<and> serialize_TemperatureSetpoint
          (snd (parse_TemperatureSetpoint True (Some (snd (serialize_TemperatureSetpoint ?x [] 32)))
             default_v_TemperatureSetpoint)) [] 32
         = serialize_TemperatureSetpoint ?x [] 32"
    by blast
  with h s show ?thesis by (simp only: snd_conv simp_thms)
qed

section \<open>The ring buffer: index arithmetic\<close>

text \<open>For a capacity \<open>2 ^ k\<close> the masked increment is the increment modulo the capacity,
  and the static assertion of the class holds.\<close>

lemma unat_pow2: 
  assumes "k < 64" shows "unat ((2::size_t) ^ k) = 2 ^ k"
proof -
  have a: "unat (of_nat (2 ^ k) :: size_t) = (2 ^ k) mod 2 ^ LENGTH(64)" by (rule unat_of_nat)
  have b: "(2::size_t) ^ k = of_nat (2 ^ k)" by simp
  have "(2::nat) ^ k < 2 ^ 64" using assms by (intro power_strict_increasing) simp_all
  then show ?thesis unfolding b a by simp
qed

lemma unat_next:
  assumes "k < 64"
  shows "unat ((h + 1) AND ring_mask (2 ^ k)) = (unat (h::size_t) + 1) mod 2 ^ k"
proof -
  have "(h + 1) AND ring_mask (2 ^ k) = take_bit k (h + 1)"
    by (simp only: ring_mask_def take_bit_eq_mask mask_eq_decr_exp)
  then have "unat ((h + 1) AND ring_mask (2 ^ k)) = unat (take_bit k (h + 1))"
    by (rule arg_cong)
  also have "\<dots> = take_bit k (unat (h + 1))"
    by (rule unsigned_take_bit_eq)
  also have "\<dots> = unat (h + 1) mod 2 ^ k"
    by (rule take_bit_eq_mod)
  also have "\<dots> = ((unat h + 1) mod 2 ^ 64) mod 2 ^ k"
    by (simp add: unat_word_ariths)
  also have "\<dots> = (unat h + 1) mod 2 ^ k"
    using assms by (intro mod_mod_cancel le_imp_power_dvd) simp
  finally show ?thesis .
qed

lemma ring_count:
  fixes h t n :: nat
  assumes "h < n" "t < n"
  shows "(h + n - t) mod n = (if t \<le> h then h - t else h + n - t)"
proof (cases "t \<le> h")
  case True
  then have "h + n - t = (h - t) + n" by simp
  then have "(h + n - t) mod n = (h - t) mod n" by simp
  with True assms show ?thesis by simp
next
  case False
  with assms show ?thesis by simp
qed

lemma ring_index:
  fixes t i n :: nat
  assumes "t < n" "i < n"
  shows "(t + i) mod n = (if t + i < n then t + i else t + i - n)"
proof (cases "t + i < n")
  case True then show ?thesis by simp
next
  case False
  then have "(t + i) mod n = (t + i - n) mod n" by (simp add: le_mod_geq)
  with False assms show ?thesis by simp
qed

lemma ring_next:
  fixes h n :: nat
  assumes "h < n"
  shows "Suc h mod n = (if Suc h = n then 0 else Suc h)"
  using assms by (simp add: mod_if)

lemma ring_full_iff:
  fixes h t n :: nat
  assumes "h < n" "t < n"
  shows "(Suc h mod n = t) = ((h + n - t) mod n = n - 1)"
  using assms by (simp add: ring_count ring_next) arith

lemma ring_count_push:
  fixes h t n :: nat
  assumes "h < n" "t < n" "Suc h mod n \<noteq> t"
  shows "(Suc h mod n + n - t) mod n = Suc ((h + n - t) mod n)"
proof -
  from assms have "Suc h mod n < n" by simp
  with assms show ?thesis
    by (simp only: ring_count) (auto simp add: ring_next split: if_splits)
qed

lemma ring_old_cells:
  fixes h t n :: nat
  assumes "h < n" "t < n" "i < (h + n - t) mod n"
  shows "(t + i) mod n \<noteq> h"
proof -
  from assms have "i < n" by (simp add: ring_count split: if_splits)
  with assms show ?thesis by (auto simp add: ring_count ring_index split: if_splits)
qed

lemma ring_new_cell:
  fixes h t n :: nat
  assumes "h < n" "t < n"
  shows "(t + (h + n - t) mod n) mod n = h"
proof -
  have "(h + n - t) mod n < n" using assms by simp
  with assms show ?thesis by (simp add: ring_count ring_index split: if_splits)
qed

lemma queue_inv_nat:
  assumes "k < 64" 
  shows "queue_inv (2 ^ k) q = (length (buf q) = 2 ^ k \<and> unat (head q) < 2 ^ k \<and> unat (tail q) < 2 ^ k)"
  by (simp add: queue_inv_def word_less_nat_alt unat_pow2 [OF assms])

lemma length_pending:
  "length (pending c q) = (unat (head q) + unat c - unat (tail q)) mod unat c"
  by (simp add: pending_def)

lemma try_push_full:
  assumes k: "k < 64" and inv: "queue_inv (2 ^ k) q"
    and full: "length (pending (2 ^ k) q) = 2 ^ k - 1"
  shows "try_push (2 ^ k) v q = (False, q)"
proof -
  let ?n = "2 ^ k :: nat"
  from inv k have h: "unat (head q) < ?n" and t: "unat (tail q) < ?n"
    by (simp_all add: queue_inv_nat)
  from full have "(unat (head q) + ?n - unat (tail q)) mod ?n = ?n - 1"
    by (simp add: length_pending unat_pow2 [OF k])
  with h t have "Suc (unat (head q)) mod ?n = unat (tail q)"
    by (simp add: ring_full_iff)
  then have "(head q + 1) AND ring_mask (2 ^ k) = tail q"
    by (simp add: word_unat_eq_iff unat_next [OF k])
  then show ?thesis by (simp add: try_push_def Let_def)
qed

lemma try_push_not_full:
  assumes k: "k < 64" and inv: "queue_inv (2 ^ k) q"
    and nfull: "length (pending (2 ^ k) q) \<noteq> 2 ^ k - 1"
  shows "\<exists>q'. try_push (2 ^ k) v q = (True, q') \<and> queue_inv (2 ^ k) q'
           \<and> pending (2 ^ k) q' = pending (2 ^ k) q @ [v]"
proof -
  let ?n = "2 ^ k :: nat"
  let ?h = "unat (head q)" and ?t = "unat (tail q)"
  let ?cnt = "(?h + ?n - ?t) mod ?n"
  let ?q' = "q\<lparr>buf := (buf q)[?h := v], head := (head q + 1) AND ring_mask (2 ^ k)\<rparr>"
  from inv k have h: "?h < ?n" and t: "?t < ?n" and len: "length (buf q) = ?n"
    by (simp_all add: queue_inv_nat)
  from nfull have c: "?cnt \<noteq> ?n - 1"
    by (simp add: length_pending unat_pow2 [OF k])
  with h t have ne: "Suc ?h mod ?n \<noteq> ?t"
    by (simp add: ring_full_iff)
  then have "(head q + 1) AND ring_mask (2 ^ k) \<noteq> tail q"
    by (simp add: word_unat_eq_iff unat_next [OF k])
  then have push: "try_push (2 ^ k) v q = (True, ?q')" by (simp add: try_push_def Let_def)
  have h': "unat (head ?q') = Suc ?h mod ?n" by (simp add: unat_next [OF k])
  have inv': "queue_inv (2 ^ k) ?q'"
    using len t by (simp add: queue_inv_nat [OF k] unat_next [OF k])
  have cnt': "(Suc ?h mod ?n + ?n - ?t) mod ?n = Suc ?cnt"
    using h t ne by (rule ring_count_push)
  have old: "?h \<noteq> (?t + i) mod ?n" if "i < ?cnt" for i
    using ring_old_cells [OF h t that] by (rule not_sym)
  have new: "(?t + ?cnt) mod ?n = ?h"
    using h t by (rule ring_new_cell)
  have "pending (2 ^ k) ?q' =
      map (\<lambda>i. (buf q)[?h := v] ! ((?t + i) mod ?n)) ([0 ..< ?cnt] @ [?cnt])"
    by (simp add: pending_def unat_pow2 [OF k] unat_next [OF k] cnt')
  also have "\<dots> = map (\<lambda>i. buf q ! ((?t + i) mod ?n)) [0 ..< ?cnt] @ [v]"
  proof -
    have "map (\<lambda>i. (buf q)[?h := v] ! ((?t + i) mod ?n)) [0 ..< ?cnt]
        = map (\<lambda>i. buf q ! ((?t + i) mod ?n)) [0 ..< ?cnt]"
      by (rule map_cong) (simp_all add: old)
    moreover have "(buf q)[?h := v] ! ((?t + ?cnt) mod ?n) = v"
      using h len by (simp only: new) simp
    ultimately show ?thesis by simp
  qed
  also have "\<dots> = pending (2 ^ k) q @ [v]"
    by (simp add: pending_def unat_pow2 [OF k])
  finally have "pending (2 ^ k) ?q' = pending (2 ^ k) q @ [v]" .
  with push inv' show ?thesis by blast
qed

lemma ring_count_pop:
  fixes h t n :: nat
  assumes "h < n" "t < n" "h \<noteq> t"
  shows "Suc ((h + n - Suc t mod n) mod n) = (h + n - t) mod n"
proof -
  from assms have "Suc t mod n < n" by simp
  with assms show ?thesis
    by (simp only: ring_count) (auto simp add: ring_next split: if_splits)
qed

lemma ring_count_zero:
  fixes h t n :: nat
  assumes "h < n" "t < n"
  shows "((h + n - t) mod n = 0) = (h = t)"
  using assms by (auto simp add: ring_count)

lemma try_pop_pending:
  assumes k: "k < 64" and inv: "queue_inv (2 ^ k) q"
  shows "case pending (2 ^ k) q of
           [] \<Rightarrow> try_pop (2 ^ k) q = (None, q)
         | x # xs \<Rightarrow> (\<exists>q'. try_pop (2 ^ k) q = (Some x, q') \<and> queue_inv (2 ^ k) q'
                       \<and> pending (2 ^ k) q' = xs)"
proof -
  let ?n = "2 ^ k :: nat"
  let ?h = "unat (head q)" and ?t = "unat (tail q)"
  let ?cnt = "(?h + ?n - ?t) mod ?n"
  let ?q' = "q\<lparr>tail := (tail q + 1) AND ring_mask (2 ^ k)\<rparr>"
  from inv k have h: "?h < ?n" and t: "?t < ?n" and len: "length (buf q) = ?n"
    by (simp_all add: queue_inv_nat)
  show ?thesis
  proof (cases "tail q = head q")
    case True
    then have "pending (2 ^ k) q = []" by (simp add: pending_def)
    with True show ?thesis by (simp add: try_pop_def)
  next
    case False
    then have ne: "?h \<noteq> ?t" by (simp add: word_unat_eq_iff)
    from False have pop: "try_pop (2 ^ k) q = (Some (buf q ! ?t), ?q')"
      by (simp add: try_pop_def Let_def)
    have inv': "queue_inv (2 ^ k) ?q'"
      using len h by (simp add: queue_inv_nat [OF k] unat_next [OF k])
    have cnt: "?cnt = Suc ((?h + ?n - Suc ?t mod ?n) mod ?n)"
      using ring_count_pop [OF h t ne] by simp
    have idx: "(Suc ?t mod ?n + i) mod ?n = (?t + Suc i) mod ?n" for i
      by (simp add: mod_add_left_eq)
    have "pending (2 ^ k) q = map (\<lambda>i. buf q ! ((?t + i) mod ?n)) [0 ..< ?cnt]"
      by (simp add: pending_def unat_pow2 [OF k])
    also have "\<dots> = buf q ! ?t # map (\<lambda>i. buf q ! ((?t + Suc i) mod ?n)) [0 ..< (?h + ?n - Suc ?t mod ?n) mod ?n]"
      unfolding cnt using t by (simp add: upt_conv_Cons map_Suc_upt [symmetric] del: upt_Suc)
    also have "\<dots> = buf q ! ?t # pending (2 ^ k) ?q'"
      by (simp add: pending_def unat_pow2 [OF k] unat_next [OF k] idx)
    finally show ?thesis using pop inv' by simp
  qed
qed

lemma capacity_ok_pow2: "k < 64 \<Longrightarrow> capacity_ok (2 ^ k)"
  unfolding capacity_ok_def
  by (simp add: mask_eq_decr_exp [symmetric] take_bit_eq_mask [symmetric] take_bit_eq_mod)

section \<open>The ring buffer: FIFO order and capacity\<close>

lemma SPSCQueue_init_inv:
  assumes k: "k < 64"
  shows "queue_inv (2 ^ k) (SPSCQueue_init (2 ^ k) d)"
  by (simp add: queue_inv_nat [OF k] SPSCQueue_init_def unat_pow2 [OF k])

lemma SPSCQueue_init_pending: "pending c (SPSCQueue_init c d) = []"
  by (simp add: pending_def SPSCQueue_init_def)

lemma length_pending_le:
  assumes k: "k < 64" and inv: "queue_inv (2 ^ k) q"
  shows "length (pending (2 ^ k) q) \<le> 2 ^ k - 1"
proof -
  define c where "c = (unat (head q) + 2 ^ k - unat (tail q)) mod 2 ^ k"
  have "c < (2 ^ k :: nat)" unfolding c_def by simp
  then have "c \<le> 2 ^ k - 1" by linarith
  then show ?thesis unfolding c_def by (simp add: length_pending unat_pow2 [OF k])
qed

lemma push_all_pending:
  assumes k: "k < 64"
  shows "queue_inv (2 ^ k) q \<Longrightarrow> length (pending (2 ^ k) q) + length xs < 2 ^ k \<Longrightarrow>
    \<exists>q'. push_all (2 ^ k) xs q = (replicate (length xs) True, q') \<and> queue_inv (2 ^ k) q'
        \<and> pending (2 ^ k) q' = pending (2 ^ k) q @ xs"
proof (induction xs arbitrary: q)
  case Nil
  then show ?case by simp
next
  case (Cons x xs)
  from Cons.prems have "length (pending (2 ^ k) q) \<noteq> 2 ^ k - 1" by simp
  from try_push_not_full [OF k Cons.prems(1) this, of x]
  obtain q1 where q1: "try_push (2 ^ k) x q = (True, q1)" "queue_inv (2 ^ k) q1"
    "pending (2 ^ k) q1 = pending (2 ^ k) q @ [x]" by blast
  with Cons.prems have "length (pending (2 ^ k) q1) + length xs < 2 ^ k" by simp
  from Cons.IH [OF q1(2) this]
  obtain q2 where "push_all (2 ^ k) xs q1 = (replicate (length xs) True, q2)"
    "queue_inv (2 ^ k) q2" "pending (2 ^ k) q2 = pending (2 ^ k) q1 @ xs" by blast
  with q1 show ?case by simp
qed

lemma pop_n_pending:
  assumes k: "k < 64"
  shows "queue_inv (2 ^ k) q \<Longrightarrow> pending (2 ^ k) q = xs @ rest \<Longrightarrow>
    \<exists>q'. pop_n (2 ^ k) (length xs) q = (map Some xs, q') \<and> queue_inv (2 ^ k) q'
        \<and> pending (2 ^ k) q' = rest"
proof (induction xs arbitrary: q)
  case Nil
  then show ?case by simp
next
  case (Cons x xs)
  from try_pop_pending [OF k Cons.prems(1)] Cons.prems(2)
  obtain q1 where q1: "try_pop (2 ^ k) q = (Some x, q1)" "queue_inv (2 ^ k) q1"
    "pending (2 ^ k) q1 = xs @ rest" by auto
  from Cons.IH [OF q1(2) q1(3)]
  obtain q2 where "pop_n (2 ^ k) (length xs) q1 = (map Some xs, q2)"
    "queue_inv (2 ^ k) q2" "pending (2 ^ k) q2 = rest" by blast
  with q1 show ?case by simp
qed

text \<open>
  Claim C4. When \<open>N\<close> items, \<open>N\<close> below the capacity, are pushed into an empty queue,
  every \<open>try_push\<close> succeeds, and the next \<open>N\<close> calls of \<open>try_pop\<close> return exactly these
  items in the order of the pushes; the queue is empty again afterwards, so nothing was
  duplicated or lost.
\<close>

theorem fifo_order:
  assumes "k < 64" and "queue_inv (2 ^ k) q" and "pending (2 ^ k) q = []"
    and "length xs < 2 ^ k"
  shows "fst (push_all (2 ^ k) xs q) = replicate (length xs) True
       \<and> fst (pop_n (2 ^ k) (length xs) (snd (push_all (2 ^ k) xs q))) = map Some xs
       \<and> pending (2 ^ k) (snd (pop_n (2 ^ k) (length xs) (snd (push_all (2 ^ k) xs q)))) = []"
proof -
  from assms have "length (pending (2 ^ k) q) + length xs < 2 ^ k" by simp
  from push_all_pending [OF assms(1,2) this]
  obtain q1 where q1: "push_all (2 ^ k) xs q = (replicate (length xs) True, q1)"
    "queue_inv (2 ^ k) q1" "pending (2 ^ k) q1 = xs @ []" using assms(3) by auto
  from pop_n_pending [OF assms(1) q1(2,3)]
  obtain q2 where "pop_n (2 ^ k) (length xs) q1 = (map Some xs, q2)" "pending (2 ^ k) q2 = []"
    by blast
  with q1 show ?thesis by simp
qed

theorem fifo_order_witness:
  "fst (push_all 4 [7, 8, 9 :: nat] (SPSCQueue_init 4 0)) = [True, True, True]
   \<and> fst (pop_n 4 3 (snd (push_all 4 [7, 8, 9 :: nat] (SPSCQueue_init 4 0))))
      = [Some 7, Some 8, Some 9]
   \<and> pending 4 (snd (pop_n 4 3 (snd (push_all 4 [7, 8, 9 :: nat] (SPSCQueue_init 4 0))))) = []"
proof -
  let ?xs = "[7, 8, 9 :: nat]" and ?q = "SPSCQueue_init (2 ^ 2) (0 :: nat)"
  have "fst (push_all (2 ^ 2) ?xs ?q) = replicate (length ?xs) True
     \<and> fst (pop_n (2 ^ 2) (length ?xs) (snd (push_all (2 ^ 2) ?xs ?q))) = map Some ?xs
     \<and> pending (2 ^ 2) (snd (pop_n (2 ^ 2) (length ?xs) (snd (push_all (2 ^ 2) ?xs ?q)))) = []"
  proof (rule fifo_order)
    show "(2 :: nat) < 64" by simp
    then show "queue_inv (2 ^ 2) ?q" by (rule SPSCQueue_init_inv)
    show "pending (2 ^ 2) ?q = []" by (rule SPSCQueue_init_pending)
    show "length ?xs < 2 ^ 2" by simp
  qed
  moreover have "(2 :: size_t) ^ 2 = 4" "length ?xs = 3" "replicate 3 True = [True, True, True]"
    "map Some ?xs = [Some 7, Some 8, Some 9]"
    by (simp_all add: numeral_3_eq_3)
  ultimately show ?thesis by (simp only:)
qed

text \<open>
  Claim C5. \<open>try_push\<close> succeeds, and appends the item to the pending items, exactly when
  the queue is not full; on a full queue it returns failure and leaves the queue, and so
  the pending items and their order, as it was.
\<close>

theorem try_push_iff_not_full:
  assumes "k < 64" and "queue_inv (2 ^ k) q"
  shows "fst (try_push (2 ^ k) v q) = (\<not> is_full (2 ^ k) q)
       \<and> (if is_full (2 ^ k) q then snd (try_push (2 ^ k) v q) = q
          else pending (2 ^ k) (snd (try_push (2 ^ k) v q)) = pending (2 ^ k) q @ [v])"
proof (cases "is_full (2 ^ k) q")
  case True
  then have "length (pending (2 ^ k) q) = 2 ^ k - 1"
    by (simp add: is_full_def unat_pow2 [OF assms(1)])
  from try_push_full [OF assms this, of v] True show ?thesis by simp
next
  case False
  then have "length (pending (2 ^ k) q) \<noteq> 2 ^ k - 1"
    by (simp add: is_full_def unat_pow2 [OF assms(1)])
  from try_push_not_full [OF assms this, of v] False show ?thesis by auto
qed

theorem try_push_iff_not_full_witness:
  "try_push 4 (5 :: nat) \<lparr>buf = [7, 0, 8, 9], head = 1, tail = 2\<rparr>
     = (False, \<lparr>buf = [7, 0, 8, 9], head = 1, tail = 2\<rparr>)
   \<and> is_full 4 \<lparr>buf = [7, 0, 8, 9 :: nat], head = 1, tail = 2\<rparr>
   \<and> pending 4 \<lparr>buf = [7, 0, 8, 9 :: nat], head = 1, tail = 2\<rparr> = [8, 9, 7]"
proof -
  let ?q = "\<lparr>buf = [7, 0, 8, 9 :: nat], head = 1, tail = 2\<rparr>"
  have k: "(2 :: nat) < 64" by simp
  have inv: "queue_inv (2 ^ 2) ?q" by (simp add: queue_inv_def)
  have full: "is_full (2 ^ 2) ?q" by code_simp
  have p: "pending 4 ?q = [8, 9, 7]" by code_simp
  have e: "(2 :: size_t) ^ 2 = 4" by simp
  from try_push_iff_not_full [OF k inv, of 5] full
  have "\<not> fst (try_push (2 ^ 2) 5 ?q) \<and> snd (try_push (2 ^ 2) 5 ?q) = ?q" by simp
  then have "try_push (2 ^ 2) 5 ?q = (False, ?q)" by (simp add: prod_eq_iff)
  with full p show ?thesis by (simp only: e)
qed

text \<open>
  Claim C10. With a power-of-two capacity \<open>C\<close> at most \<open>C - 1\<close> items are pending at any
  time, and a \<open>try_push\<close> issued while \<open>C - 1\<close> items are pending returns false. The bound
  is reached: \<open>C - 1\<close> pushes into a fresh queue all succeed, and the next one fails.
\<close>

theorem usable_capacity:
  assumes "k < 64" and "queue_inv (2 ^ k) q" and "length xs = 2 ^ k - 1"
  shows "length (pending (2 ^ k) q) \<le> 2 ^ k - 1
       \<and> (if length (pending (2 ^ k) q) = 2 ^ k - 1
          then try_push (2 ^ k) v q = (False, q) else fst (try_push (2 ^ k) v q))
       \<and> fst (push_all (2 ^ k) xs (SPSCQueue_init (2 ^ k) d)) = replicate (2 ^ k - 1) True
       \<and> pending (2 ^ k) (snd (push_all (2 ^ k) xs (SPSCQueue_init (2 ^ k) d))) = xs
       \<and> \<not> fst (try_push (2 ^ k) v (snd (push_all (2 ^ k) xs (SPSCQueue_init (2 ^ k) d))))"
proof -
  let ?q0 = "SPSCQueue_init (2 ^ k) d"
  have a: "length (pending (2 ^ k) q) \<le> 2 ^ k - 1"
    by (rule length_pending_le [OF assms(1,2)])
  have b: "if length (pending (2 ^ k) q) = 2 ^ k - 1
          then try_push (2 ^ k) v q = (False, q) else fst (try_push (2 ^ k) v q)"
    using try_push_full [OF assms(1,2), of v] try_push_not_full [OF assms(1,2), of v] by auto
  have "length (pending (2 ^ k) ?q0) + length xs < 2 ^ k"
    using assms(3) by (simp add: SPSCQueue_init_pending)
  from push_all_pending [OF assms(1) SPSCQueue_init_inv [OF assms(1)] this]
  obtain q1 where q1: "push_all (2 ^ k) xs ?q0 = (replicate (length xs) True, q1)"
    "queue_inv (2 ^ k) q1" "pending (2 ^ k) q1 = xs"
    by (auto simp: SPSCQueue_init_pending)
  from q1(3) assms(3) have "length (pending (2 ^ k) q1) = 2 ^ k - 1" by simp
  from try_push_full [OF assms(1) q1(2) this, of v] q1 assms(3) a b show ?thesis by simp
qed

theorem usable_capacity_witness:
  "length (pending 4 \<lparr>buf = [7, 8, 9, 0 :: nat], head = 3, tail = 0\<rparr>) \<le> 3
   \<and> try_push 4 5 \<lparr>buf = [7, 8, 9, 0 :: nat], head = 3, tail = 0\<rparr>
        = (False, \<lparr>buf = [7, 8, 9, 0], head = 3, tail = 0\<rparr>)
   \<and> fst (push_all 4 [1, 2, 3 :: nat] (SPSCQueue_init 4 0)) = [True, True, True]
   \<and> pending 4 (snd (push_all 4 [1, 2, 3 :: nat] (SPSCQueue_init 4 0))) = [1, 2, 3]
   \<and> \<not> fst (try_push 4 5 (snd (push_all 4 [1, 2, 3 :: nat] (SPSCQueue_init 4 0))))"
proof -
  let ?q = "\<lparr>buf = [7, 8, 9, 0 :: nat], head = 3, tail = 0\<rparr>"
  let ?xs = "[1, 2, 3 :: nat]"
  have k: "(2 :: nat) < 64" by simp
  have inv: "queue_inv (2 ^ 2) ?q" by (simp add: queue_inv_def)
  have len: "length ?xs = 2 ^ 2 - 1" by simp
  have cnt: "length (pending (2 ^ 2) ?q) = 2 ^ 2 - 1" by code_simp
  have e: "(2 :: size_t) ^ 2 = 4" "(2 :: nat) ^ 2 - 1 = 3" "replicate 3 True = [True, True, True]"
    by (simp_all add: numeral_3_eq_3)
  from usable_capacity [OF k inv len, of 5 0] cnt
  show ?thesis by (simp only: e) simp
qed

section \<open>The worker\<close>

lemma worker_capacity_pow2: "worker_capacity = 2 ^ 10"
  by (simp add: worker_capacity_def)

lemma handle_table_valid:
  "table_valid (table s) \<Longrightarrow> table_valid (table (handle m s))"
  by (cases m)
     (simp_all add: table_valid_def handle_TemperatureSetpoint_def handle_HighTemperatureAlarm_def
        handle_FanDutyCycle_def handle_Stop_def set_TemperatureSetpoint_def
        set_HighTemperatureAlarm_def set_FanDutyCycle_def)

lemma run_iteration_table_valid:
  "table_valid (table s) \<Longrightarrow> table_valid (table (run_iteration s))"
  by (auto simp: run_iteration_def handle_table_valid split: prod.splits option.splits)

lemma step_table_valid:
  "table_valid (table s) \<Longrightarrow> table_valid (table (step e s))"
  by (cases e) (simp_all add: run_iteration_table_valid)

lemma exec_table_valid:
  "table_valid (table s) \<Longrightarrow> table_valid (table (exec evs s))"
  by (induction evs arbitrary: s) (simp_all add: step_table_valid)

lemma ParameterTable_init_valid: "table_valid ParameterTable_init"
  by (simp add: table_valid_def ParameterTable_init_def default_v_TemperatureSetpoint_def
      default_v_HighTemperatureAlarm_def default_v_FanDutyCycle_def
      validate_TemperatureSetpoint_def validate_HighTemperatureAlarm_def
      validate_FanDutyCycle_def float_ge_def)

text \<open>
  Claim C6. In every state the system reaches from its initial state, whatever messages the
  producer pushes and however the pushes interleave with the worker's loop, and after any
  sequence of messages handled by the worker, every slot of the parameter table satisfies
  the validator of its kind.
\<close>

theorem table_always_valid:
  "table_valid (table ParamWorker_init)
   \<and> table_valid (table (exec evs (start ParamWorker_init)))
   \<and> table_valid (table (fold handle ms (start ParamWorker_init)))"
proof -
  have i: "table_valid (table ParamWorker_init)"
    by (simp add: ParamWorker_init_def ParameterTable_init_valid)
  then have s: "table_valid (table (start ParamWorker_init))" by (simp add: start_def)
  have "table_valid (table (fold handle ms s))" if "table_valid (table s)" for s
    using that by (induction ms arbitrary: s) (simp_all add: handle_table_valid)
  with i s exec_table_valid show ?thesis by blast
qed

text \<open>
  Claim C2. When the running worker handles \<open>SetParam(K, v)\<close>: if \<open>validate(v)\<close> holds,
  the slot of \<open>K\<close> in the table is \<open>v\<close> afterwards; otherwise the slot keeps its value and
  the notice \<open>[Reject] <name of K> value\<close> is written to the output. In both cases the
  worker is still running.
\<close>

theorem handle_SetParam:
  assumes "running s"
  shows "running (handle (SetParam_TemperatureSetpoint x) s)
       \<and> (if validate_TemperatureSetpoint x
          then tbl_t (table (handle (SetParam_TemperatureSetpoint x) s)) = x
          else tbl_t (table (handle (SetParam_TemperatureSetpoint x) s)) = tbl_t (table s)
             \<and> cout (handle (SetParam_TemperatureSetpoint x) s)
                 = cout s @ ''[Reject] TemperatureSetpoint value'' @ [CHR 0x0A])
       \<and> running (handle (SetParam_HighTemperatureAlarm y) s)
       \<and> (if validate_HighTemperatureAlarm y
          then tbl_a (table (handle (SetParam_HighTemperatureAlarm y) s)) = y
          else tbl_a (table (handle (SetParam_HighTemperatureAlarm y) s)) = tbl_a (table s)
             \<and> cout (handle (SetParam_HighTemperatureAlarm y) s)
                 = cout s @ ''[Reject] HighTemperatureAlarm value'' @ [CHR 0x0A])
       \<and> running (handle (SetParam_FanDutyCycle z) s)
       \<and> (if validate_FanDutyCycle z
          then tbl_f (table (handle (SetParam_FanDutyCycle z) s)) = z
          else tbl_f (table (handle (SetParam_FanDutyCycle z) s)) = tbl_f (table s)
             \<and> cout (handle (SetParam_FanDutyCycle z) s)
                 = cout s @ ''[Reject] FanDutyCycle value'' @ [CHR 0x0A])"
  using assms
  by (simp add: handle_TemperatureSetpoint_def handle_HighTemperatureAlarm_def
        handle_FanDutyCycle_def set_TemperatureSetpoint_def
        set_HighTemperatureAlarm_def set_FanDutyCycle_def reject_notice_def
        name_TemperatureSetpoint_def name_HighTemperatureAlarm_def name_FanDutyCycle_def)

lemma try_push_tail: "tail (snd (try_push c m q)) = tail q"
  by (simp add: try_push_def Let_def)

lemma stopped_step:
  "\<not> running s \<Longrightarrow> \<not> running (step e s) \<and> tail (queue (step e s)) = tail (queue s)
      \<and> table (step e s) = table s \<and> cout (step e s) = cout s"
  by (cases e) (simp_all add: try_push_tail run_iteration_def)

lemma stopped_exec:
  "\<not> running s \<Longrightarrow> \<not> running (exec evs s) \<and> tail (queue (exec evs s)) = tail (queue s)
      \<and> table (exec evs s) = table s \<and> cout (exec evs s) = cout s"
proof (induction evs arbitrary: s)
  case Nil
  then show ?case by simp
next
  case (Cons e evs)
  from stopped_step [OF Cons.prems, of e] Cons.IH [of "step e s"] show ?case by simp
qed

text \<open>
  Claim C7. When the running worker pops a \<open>Stop\<close> message, its flag is cleared and the next
  test of the loop condition makes \<open>run\<close> return. Whatever happens afterwards, pushes
  included, the worker pops nothing (the queue's \<open>tail\<close> index never moves again) and the
  table and the output stay as they are; a later push is still accepted by a queue that is
  not full, and the message stays pending.
\<close>

theorem stop_is_final:
  assumes "worker s = InLoop" and "running s"
    and "queue_inv worker_capacity (queue s)"
    and "pending worker_capacity (queue s) = Stop # rest"
  shows "\<not> running (run_iteration s)
       \<and> pending worker_capacity (queue (run_iteration s)) = rest
       \<and> worker (run_iteration (run_iteration s)) = Returned
       \<and> \<not> running (exec evs (run_iteration s))
       \<and> tail (queue (exec evs (run_iteration s))) = tail (queue (run_iteration s))
       \<and> table (exec evs (run_iteration s)) = table s
       \<and> cout (exec evs (run_iteration s)) = cout s
       \<and> (\<not> is_full worker_capacity (queue (run_iteration s)) \<longrightarrow>
            pending worker_capacity (queue (step (Push m) (run_iteration s))) = rest @ [m])"
proof -
  have k: "(10 :: nat) < 64" by simp
  from try_pop_pending [OF k] assms(3,4)
  obtain q' where q': "try_pop worker_capacity (queue s) = (Some Stop, q')"
    "queue_inv worker_capacity q'" "pending worker_capacity q' = rest"
    by (fastforce simp: worker_capacity_pow2)
  with assms have s1: "run_iteration s = s\<lparr>queue := q', running := False\<rparr>"
    by (simp add: run_iteration_def handle_Stop_def)
  have st: "\<not> running (run_iteration s)" by (simp add: s1)
  have r: "worker (run_iteration (run_iteration s)) = Returned"
    unfolding s1 using assms(1) by (simp add: run_iteration_def)
  have p: "pending worker_capacity (queue (step (Push m) (run_iteration s))) = rest @ [m]"
    if "\<not> is_full worker_capacity (queue (run_iteration s))"
  proof -
    from that have "length (pending (2 ^ 10) q') \<noteq> 2 ^ 10 - 1"
      by (simp add: s1 is_full_def worker_capacity_pow2 unat_pow2 [OF k])
    from try_push_not_full [OF k _ this, of m] q'(2,3)
    show ?thesis by (auto simp: s1 worker_capacity_pow2)
  qed
  from stopped_exec [OF st, of evs] st r p q'(3) show ?thesis by (simp add: s1)
qed


theorem stop_is_final_witness:
  "\<not> running (run_iteration
       (exec [Push Stop, Push (SetParam_FanDutyCycle \<lparr>percent = Finite 45\<rparr>)]
          (start ParamWorker_init)))
   \<and> pending worker_capacity (queue (run_iteration
         (exec [Push Stop, Push (SetParam_FanDutyCycle \<lparr>percent = Finite 45\<rparr>)]
            (start ParamWorker_init))))
       = [SetParam_FanDutyCycle \<lparr>percent = Finite 45\<rparr>]
   \<and> worker (run_iteration (run_iteration
         (exec [Push Stop, Push (SetParam_FanDutyCycle \<lparr>percent = Finite 45\<rparr>)]
            (start ParamWorker_init)))) = Returned
   \<and> tail (queue (exec [Push Stop, Iterate, Iterate] (run_iteration
         (exec [Push Stop, Push (SetParam_FanDutyCycle \<lparr>percent = Finite 45\<rparr>)]
            (start ParamWorker_init)))))
       = tail (queue (run_iteration
         (exec [Push Stop, Push (SetParam_FanDutyCycle \<lparr>percent = Finite 45\<rparr>)]
            (start ParamWorker_init))))
   \<and> table (exec [Push Stop, Iterate, Iterate] (run_iteration
         (exec [Push Stop, Push (SetParam_FanDutyCycle \<lparr>percent = Finite 45\<rparr>)]
            (start ParamWorker_init)))) = ParameterTable_init
   \<and> pending worker_capacity (queue (step (Push Stop) (run_iteration
         (exec [Push Stop, Push (SetParam_FanDutyCycle \<lparr>percent = Finite 45\<rparr>)]
            (start ParamWorker_init)))))
       = [SetParam_FanDutyCycle \<lparr>percent = Finite 45\<rparr>, Stop]"
proof -
  let ?m = "SetParam_FanDutyCycle \<lparr>percent = Finite 45\<rparr>"
  let ?q0 = "SPSCQueue_init (2 ^ 10) Msg_init"
  let ?s = "exec [Push Stop, Push ?m] (start ParamWorker_init)"
  have k: "(10 :: nat) < 64" by simp
  have "length (pending (2 ^ 10) ?q0) + length [Stop, ?m] < 2 ^ 10"
    by (simp add: SPSCQueue_init_pending)
  from push_all_pending [OF k SPSCQueue_init_inv [OF k] this]
  obtain q1 where q1: "push_all (2 ^ 10) [Stop, ?m] ?q0 = ([True, True], q1)"
    "queue_inv (2 ^ 10) q1" "pending (2 ^ 10) q1 = [Stop, ?m]"
    by (auto simp: SPSCQueue_init_pending)
  from q1(1) have s: "?s = (start ParamWorker_init)\<lparr>queue := q1\<rparr>"
    by (simp add: start_def ParamWorker_init_def worker_capacity_pow2 split: prod.splits)
  have h1: "worker ?s = InLoop" and h2: "running ?s"
    unfolding s by (simp_all add: start_def)
  have h3: "queue_inv worker_capacity (queue ?s)"
    unfolding s using q1(2) by (simp add: worker_capacity_pow2)
  have h4: "pending worker_capacity (queue ?s) = Stop # [?m]"
    unfolding s using q1(3) by (simp add: worker_capacity_pow2)
  have t: "table ?s = ParameterTable_init" and c: "cout ?s = []"
    unfolding s by (simp_all add: start_def ParamWorker_init_def)
  note r = stop_is_final [OF h1 h2 h3 h4, of "[Push Stop, Iterate, Iterate]" Stop]
  from r have "pending worker_capacity (queue (run_iteration ?s)) = [?m]" by blast
  then have "\<not> is_full worker_capacity (queue (run_iteration ?s))"
    by (simp add: is_full_def worker_capacity_def)
  with r t show ?thesis by simp
qed

theorem handle_SetParam_witness:
  "running (start ParamWorker_init)
   \<and> running (handle (SetParam_HighTemperatureAlarm \<lparr>threshold = Finite 90\<rparr>)
        (start ParamWorker_init))
   \<and> tbl_a (table (handle (SetParam_HighTemperatureAlarm \<lparr>threshold = Finite 90\<rparr>)
        (start ParamWorker_init))) = \<lparr>threshold = Finite 90\<rparr>
   \<and> running (handle (SetParam_FanDutyCycle \<lparr>percent = Finite 200\<rparr>)
        (start ParamWorker_init))
   \<and> tbl_f (table (handle (SetParam_FanDutyCycle \<lparr>percent = Finite 200\<rparr>)
        (start ParamWorker_init))) = \<lparr>percent = Finite 50\<rparr>
   \<and> cout (handle (SetParam_FanDutyCycle \<lparr>percent = Finite 200\<rparr>)
        (start ParamWorker_init)) = ''[Reject] FanDutyCycle value'' @ [CHR 0x0A]
   \<and> tbl_t (table (handle (SetParam_TemperatureSetpoint \<lparr>value = NaN\<rparr>)
        (start ParamWorker_init))) = \<lparr>value = Finite (75 / 2)\<rparr>"
proof -
  let ?s = "start ParamWorker_init"
  have run: "running ?s" by (simp add: start_def)
  have v: "\<not> validate_TemperatureSetpoint \<lparr>value = NaN\<rparr>"
    "validate_HighTemperatureAlarm \<lparr>threshold = Finite 90\<rparr>"
    "\<not> validate_FanDutyCycle \<lparr>percent = Finite 200\<rparr>"
    by (simp_all add: validate_TemperatureSetpoint_def validate_HighTemperatureAlarm_def
        validate_FanDutyCycle_def float_ge_def)
  have i: "tbl_f (table ?s) = \<lparr>percent = Finite 50\<rparr>"
    "tbl_t (table ?s) = \<lparr>value = Finite (75 / 2)\<rparr>" "cout ?s = []"
    by (simp_all add: start_def ParamWorker_init_def ParameterTable_init_def
        default_v_FanDutyCycle_def default_v_TemperatureSetpoint_def)
  from handle_SetParam [OF run, of "\<lparr>value = NaN\<rparr>" "\<lparr>threshold = Finite 90\<rparr>"
      "\<lparr>percent = Finite 200\<rparr>"] run
  show ?thesis by (simp only: v i if_True if_False append_Nil)
qed


end
